theory Spec2Isabelle
  imports Main
begin

section \<open>WebReady: the request handlers of server.js\<close>

text \<open>
  The two handlers of \<^verbatim>\<open>server.js\<close>, \<^verbatim>\<open>POST /process\<close> and
  \<^verbatim>\<open>POST /process-batch\<close>, are embedded as HOL functions. The image library
  (\<^verbatim>\<open>sharp\<close>) is a parameter of the model: a metadata probe and an encoder, each of
  which may fail. The zip stream is the list of entries appended to it.

  JavaScript strings are modelled as \<^typ>\<open>string\<close>: a character stands for a code unit
  below 256. JavaScript numbers produced by \<^verbatim>\<open>parseInt\<close> are integers, NaN or an
  infinity; the sign of zero is not modelled (no operation of the handlers observes it).
\<close>

subsection \<open>Strings\<close>

text \<open>White space as \<^verbatim>\<open>String.prototype.trim\<close> and \<^verbatim>\<open>parseInt\<close> see it: TAB, LF, VT,
  FF, CR, SP and NBSP (the white space and line terminators below code unit 256).\<close>

definition isWhiteSpace :: "char \<Rightarrow> bool" where
  "isWhiteSpace c = ((of_char c :: nat) \<in> {9, 10, 11, 12, 13, 32, 160})"

definition trim :: "string \<Rightarrow> string" where
  "trim s = rev (dropWhile isWhiteSpace (rev (dropWhile isWhiteSpace s)))"

text \<open>\<^verbatim>\<open>toLowerCase\<close> on code units below 256: A to Z, and the accented capitals
  0xC0 to 0xDE except the multiplication sign 0xD7, move up by 32.\<close>

definition toLowerChar :: "char \<Rightarrow> char" where
  "toLowerChar c =
     (let n = (of_char c :: nat)
      in if (65 \<le> n \<and> n \<le> 90) \<or> (192 \<le> n \<and> n \<le> 222 \<and> n \<noteq> 215)
         then char_of (n + 32) else c)"

definition toLowerCase :: "string \<Rightarrow> string" where
  "toLowerCase s = map toLowerChar s"

text \<open>\<^verbatim>\<open>s.split(',')\<close>: the pieces between commas; the empty string gives one empty
  piece.\<close>

fun splitComma :: "string \<Rightarrow> string list" where
  "splitComma [] = [[]]"
| "splitComma (c # cs) =
     (if c = CHR '','' then [] # splitComma cs
      else (case splitComma cs of
              [] \<Rightarrow> [[c]]
            | p # ps \<Rightarrow> (c # p) # ps))"

text \<open>\<^verbatim>\<open>xs.join(sep)\<close>.\<close>

fun joinWith :: "string \<Rightarrow> string list \<Rightarrow> string" where
  "joinWith sep [] = []"
| "joinWith sep [x] = x"
| "joinWith sep (x # y # ys) = x @ sep @ joinWith sep (y # ys)"

text \<open>The decimal digits of a non-negative integer.\<close>

definition digitChar :: "int \<Rightarrow> char" where
  "digitChar d = ''0123456789'' ! nat d"

function digitsOf :: "int \<Rightarrow> string" where
  "digitsOf n =
     (if n < 10 then [digitChar n] else digitsOf (n div 10) @ [digitChar (n mod 10)])"
  by pat_completeness auto
termination
  by (relation "measure nat") auto

declare digitsOf.simps [simp del]

text \<open>\<^verbatim>\<open>s.replace(/\.[^.]+$/, '')\<close>: the search tries each position from the left; the
  pattern matches at a dot that is followed, up to the end of the string, by one or more
  characters none of which is a dot. The match runs to the end and is removed.\<close>

fun stripExt :: "string \<Rightarrow> string" where
  "stripExt [] = []"
| "stripExt (c # cs) =
     (if c = CHR ''.'' \<and> cs \<noteq> [] \<and> CHR ''.'' \<notin> set cs then [] else c # stripExt cs)"

subsection \<open>Numbers\<close>

datatype jsnum = NaN | Num int | PosInf | NegInf

text \<open>\<^verbatim>\<open>Math.max\<close> and \<^verbatim>\<open>Math.min\<close> of two numbers: NaN if either is NaN.\<close>

fun mathMax :: "jsnum \<Rightarrow> jsnum \<Rightarrow> jsnum" where
  "mathMax NaN y = NaN"
| "mathMax x NaN = NaN"
| "mathMax PosInf y = PosInf"
| "mathMax x PosInf = PosInf"
| "mathMax NegInf y = y"
| "mathMax x NegInf = x"
| "mathMax (Num a) (Num b) = Num (max a b)"

fun mathMin :: "jsnum \<Rightarrow> jsnum \<Rightarrow> jsnum" where
  "mathMin NaN y = NaN"
| "mathMin x NaN = NaN"
| "mathMin NegInf y = NegInf"
| "mathMin x NegInf = NegInf"
| "mathMin PosInf y = y"
| "mathMin x PosInf = x"
| "mathMin (Num a) (Num b) = Num (min a b)"

text \<open>The value of a digit string as a double: exact below \<open>2^53\<close>, above that rounded to
  53 significant bits (to nearest, ties to even), and infinite from \<open>2^1024\<close> on.\<close>

function bitLength :: "int \<Rightarrow> nat" where
  "bitLength n = (if n \<le> 0 then 0 else Suc (bitLength (n div 2)))"
  by pat_completeness auto
termination
  by (relation "measure nat") auto

declare bitLength.simps [simp del]

definition roundToDouble :: "int \<Rightarrow> int option" where
  "roundToDouble n =
     (if n < 2 ^ 53 then Some n
      else let e = bitLength n - 53;
               q = n div 2 ^ e;
               r = n mod 2 ^ e;
               h = 2 ^ (e - 1);
               m = (if h < r \<or> (r = h \<and> odd q) then q + 1 else q) * 2 ^ e
           in if m < 2 ^ 1024 then Some m else None)"

text \<open>A number in a template literal (\<^verbatim>\<open>Number.prototype.toString\<close>), for a double
  whose value is an integer \<open>x\<close>. The digits printed are those of the decimal with the
  fewest significant digits whose double is \<open>x\<close>, and among those the one nearest to
  \<open>x\<close> (an even last digit on a tie). With \<open>k\<close> significant digits the only decimals
  to try are \<open>x\<close> cut after \<open>k\<close> digits and the next one up. Below \<open>2^53\<close> every
  integer is its own double, and the decimal is \<open>x\<close> itself.\<close>

definition candidates :: "int \<Rightarrow> nat \<Rightarrow> int list" where
  "candidates x k =
     (let p = 10 ^ (length (digitsOf x) - k);
          lo = (x div p) * p;
          hi = lo + p
      in filter (\<lambda>y. roundToDouble y = Some x)
           (if x - lo < hi - x \<or> (x - lo = hi - x \<and> even (x div p)) then [lo, hi] else [hi, lo]))"

fun shortest :: "int \<Rightarrow> nat list \<Rightarrow> int" where
  "shortest x [] = x"
| "shortest x (k # ks) = (case candidates x k of [] \<Rightarrow> shortest x ks | y # ys \<Rightarrow> y)"

definition decimalOf :: "int \<Rightarrow> int" where
  "decimalOf x = (if x < 2 ^ 53 then x else shortest x [1 ..< Suc (length (digitsOf x))])"

text \<open>A decimal of up to 21 digits is printed in full. A longer one is printed in exponent
  notation: the first significant digit, a point and the other significant digits if there
  are any, then \<^verbatim>\<open>e+\<close> and the number of digits that follow the first.\<close>

definition expForm :: "string \<Rightarrow> string" where
  "expForm ds =
     (let sig = rev (dropWhile (\<lambda>c. c = CHR ''0'') (rev ds));
          ex = digitsOf (int (length ds) - 1)
      in if length sig = 1 then sig @ ''e+'' @ ex
         else hd sig # CHR ''.'' # tl sig @ ''e+'' @ ex)"

definition render :: "int \<Rightarrow> string" where
  "render y = (let ds = digitsOf y in if length ds \<le> 21 then ds else expForm ds)"

definition numToString :: "int \<Rightarrow> string" where
  "numToString n =
     (if n < 0 then CHR ''-'' # render (decimalOf (- n)) else render (decimalOf n))"

definition isDigit :: "char \<Rightarrow> bool" where
  "isDigit c = (48 \<le> (of_char c :: nat) \<and> (of_char c :: nat) \<le> 57)"

definition digitsValue :: "string \<Rightarrow> int" where
  "digitsValue z = foldl (\<lambda>acc c. 10 * acc + ((of_char c :: int) - 48)) 0 z"

text \<open>\<^verbatim>\<open>parseInt(s, 10)\<close>: skip leading white space, take an optional sign, then the
  longest run of decimal digits; no digit gives NaN.\<close>

definition parseInt :: "string \<Rightarrow> jsnum" where
  "parseInt s =
     (let t = dropWhile isWhiteSpace s;
          neg = (t \<noteq> [] \<and> hd t = CHR ''-'');
          u = (if t \<noteq> [] \<and> (hd t = CHR ''-'' \<or> hd t = CHR ''+'') then tl t else t);
          z = takeWhile isDigit u
      in if z = [] then NaN
         else (case roundToDouble (digitsValue z) of
                 None \<Rightarrow> (if neg then NegInf else PosInf)
               | Some m \<Rightarrow> Num (if neg then - m else m)))"

subsection \<open>The request\<close>

text \<open>The text fields of the multipart body that the handlers read; \<open>None\<close> is an
  absent field (\<^verbatim>\<open>undefined\<close>), on which \<^verbatim>\<open>??\<close> takes its right operand.\<close>

record body =
  widths :: "string option"
  formats :: "string option"
  quality_webp :: "string option"
  quality_avif :: "string option"
  basename :: "string option"
  sizes :: "string option"

record upload =
  originalname :: "string option"
  buffer :: string

definition orElse :: "'a option \<Rightarrow> 'a \<Rightarrow> 'a" where
  "orElse v d = (case v of None \<Rightarrow> d | Some x \<Rightarrow> x)"

subsection \<open>Resolving the configuration\<close>

definition defaultBreakpoints :: "int list" where
  "defaultBreakpoints = [480, 768, 1200]"

text \<open>The filter \<^verbatim>\<open>n => Number.isFinite(n) && n > 0\<close>.\<close>

fun finitePositive :: "jsnum \<Rightarrow> bool" where
  "finitePositive (Num i) = (0 < i)"
| "finitePositive x = False"

fun intOf :: "jsnum \<Rightarrow> int" where
  "intOf (Num i) = i"
| "intOf x = 0"

text \<open>Lines 103 to 107 (and 245 to 249). What passes the filter is a positive integer,
  kept as an \<^typ>\<open>int\<close>; on such numbers the comparator \<^verbatim>\<open>(a, b) => a - b\<close> sorts
  ascending.\<close>

definition resolveWidths :: "string option \<Rightarrow> int list" where
  "resolveWidths field =
     sort (map intOf (filter finitePositive
       (map (\<lambda>s. parseInt (trim s))
         (splitComma (orElse field (joinWith '','' (map numToString defaultBreakpoints)))))))"

datatype format = Webp | Avif

fun fmtName :: "format \<Rightarrow> string" where
  "fmtName Webp = ''webp''"
| "fmtName Avif = ''avif''"

text \<open>Lines 109 to 113: the tokens that are \<^verbatim>\<open>'webp'\<close> or \<^verbatim>\<open>'avif'\<close> are kept, in
  order and with repetitions; if none is left, \<^verbatim>\<open>'webp'\<close> is pushed.\<close>

definition formatOf :: "string \<Rightarrow> format option" where
  "formatOf f = (if f = ''webp'' then Some Webp else if f = ''avif'' then Some Avif else None)"

definition resolveFormats :: "string option \<Rightarrow> format list" where
  "resolveFormats field =
     (let fs = List.map_filter formatOf
                 (map (\<lambda>s. toLowerCase (trim s)) (splitComma (orElse field ''webp'')))
      in if length fs = 0 then fs @ [Webp] else fs)"

text \<open>Lines 115 and 116: \<^verbatim>\<open>Math.min(100, Math.max(1, parseInt(String(field ?? dflt), 10)))\<close>.\<close>

definition resolveQuality :: "string option \<Rightarrow> string \<Rightarrow> jsnum" where
  "resolveQuality field dflt = mathMin (Num 100) (mathMax (Num 1) (parseInt (orElse field dflt)))"

definition qWebp :: "body \<Rightarrow> jsnum" where
  "qWebp b = resolveQuality (quality_webp b) ''82''"

definition qAvif :: "body \<Rightarrow> jsnum" where
  "qAvif b = resolveQuality (quality_avif b) ''55''"

text \<open>Line 118 (single image) and line 265 (batch).\<close>

definition baseNameSingle :: "body \<Rightarrow> upload \<Rightarrow> string" where
  "baseNameSingle b f = stripExt (orElse (basename b) (orElse (originalname f) ''image''))"

definition baseNameBatch :: "upload \<Rightarrow> string" where
  "baseNameBatch f = stripExt (orElse (originalname f) ''image'')"

subsection \<open>The image library\<close>

text \<open>\<^verbatim>\<open>sharp(buf).metadata()\<close> rejects, or resolves to an object whose \<^verbatim>\<open>width\<close> may
  be missing. \<^verbatim>\<open>sharp(buf).resize({width: w, withoutEnlargement: true}).clone()\<close> followed
  by \<^verbatim>\<open>.webp({quality})\<close> or \<^verbatim>\<open>.avif({quality})\<close> and \<^verbatim>\<open>.toBuffer()\<close> rejects
  (\<open>None\<close>) or resolves to the encoded bytes.\<close>

datatype probe = MetadataError | Metadata "int option"

record sharp =
  metadata :: "string \<Rightarrow> probe"
  toBuffer :: "string \<Rightarrow> int \<Rightarrow> format \<Rightarrow> jsnum \<Rightarrow> string option"

record "output" =
  name :: string
  fmt :: format
  width :: int
  buf :: string

text \<open>An encoder invocation, as (width, format); the handlers return the invocations
  they made, in order, beside their response.\<close>

type_synonym call = "int \<times> format"

subsection \<open>Generating the outputs\<close>

text \<open>One \<^verbatim>\<open>outputs.push({...})\<close> of lines 149 to 154 (or 157 to 162): the encoder is
  awaited first; if it rejects, control leaves the loop for the \<^verbatim>\<open>catch\<close>.\<close>

definition pushOutput ::
  "sharp \<Rightarrow> string \<Rightarrow> string \<Rightarrow> format \<Rightarrow> jsnum \<Rightarrow> int \<Rightarrow> output list \<times> call list
     \<Rightarrow> output list option \<times> call list" where
  "pushOutput sh bytes baseName fm q w st =
     (case st of (outs, calls) \<Rightarrow>
        (case toBuffer sh bytes w fm q of
           None \<Rightarrow> (None, calls @ [(w, fm)])
         | Some b \<Rightarrow>
             (Some (outs @ [\<lparr>name = baseName @ ''-'' @ numToString w @ ''.'' @ fmtName fm,
                              fmt = fm, width = w, buf = b\<rparr>]),
              calls @ [(w, fm)])))"

text \<open>The loop of lines 146 to 164 (the same text as lines 291 to 309): for each width,
  webp first, then avif. \<open>None\<close> is the jump to the \<^verbatim>\<open>catch\<close>.\<close>

fun encodeLoop ::
  "sharp \<Rightarrow> string \<Rightarrow> string \<Rightarrow> format list \<Rightarrow> jsnum \<Rightarrow> jsnum \<Rightarrow> int list
     \<Rightarrow> output list \<times> call list \<Rightarrow> output list option \<times> call list" where
  "encodeLoop sh bytes baseName fmts qw qa [] st = (Some (fst st), snd st)"
| "encodeLoop sh bytes baseName fmts qw qa (w # ws) st =
     (case (if Webp \<in> set fmts then pushOutput sh bytes baseName Webp qw w st
            else (Some (fst st), snd st)) of
        (None, calls1) \<Rightarrow> (None, calls1)
      | (Some outs1, calls1) \<Rightarrow>
          (case (if Avif \<in> set fmts then pushOutput sh bytes baseName Avif qa w (outs1, calls1)
                 else (Some outs1, calls1)) of
             (None, calls2) \<Rightarrow> (None, calls2)
           | (Some outs2, calls2) \<Rightarrow>
               encodeLoop sh bytes baseName fmts qw qa ws (outs2, calls2)))"

subsection \<open>Markup\<close>

text \<open>\<^verbatim>\<open>${ws[i]}\<close>: an index past the end reads \<^verbatim>\<open>undefined\<close>.\<close>

definition elemStr :: "int list \<Rightarrow> nat \<Rightarrow> string" where
  "elemStr ws i = (if i < length ws then numToString (ws ! i) else ''undefined'')"

text \<open>The default of the \<^verbatim>\<open>sizes\<close> attribute (line 121 on the resolved widths, line 316
  on the feasible widths). \<^verbatim>\<open>ws[1] || ws[0]\<close> takes \<^verbatim>\<open>ws[0]\<close> when \<^verbatim>\<open>ws[1]\<close> is
  missing or zero; \<^verbatim>\<open>ws[ws.length - 1]\<close> of an empty array is \<^verbatim>\<open>undefined\<close>.\<close>

definition defaultSizes :: "int list \<Rightarrow> string" where
  "defaultSizes ws =
     ''(max-width: '' @ elemStr ws 0 @ ''px) 100vw, (max-width: ''
       @ (if 1 < length ws \<and> ws ! 1 \<noteq> 0 then elemStr ws 1 else elemStr ws 0)
       @ ''px) 50vw, ''
       @ (if ws = [] then ''undefined'' else numToString (last ws)) @ ''px''"

text \<open>Lines 170 and 171: the entries of one format, in the order of the outputs.\<close>

definition srcsetOf :: "format \<Rightarrow> output list \<Rightarrow> string list" where
  "srcsetOf fm outs =
     map (\<lambda>out. name out @ '' '' @ numToString (width out) @ ''w'') (filter (\<lambda>out. fmt out = fm) outs)"

definition baseSrc :: "string \<Rightarrow> format list \<Rightarrow> int list \<Rightarrow> string" where
  "baseSrc baseName fmts finalWidths =
     (if Webp \<in> set fmts then baseName @ ''-'' @ elemStr finalWidths 0 @ ''.webp''
      else baseName @ ''-'' @ elemStr finalWidths 0 @ ''.avif'')"

definition imgSnippet :: "string \<Rightarrow> format list \<Rightarrow> int list \<Rightarrow> string \<Rightarrow> output list \<Rightarrow> string" where
  \<open>imgSnippet baseName fmts finalWidths sizesIn outs =
     ''<img\<newline>  src="'' @ baseSrc baseName fmts finalWidths
     @ ''"\<newline>  srcset="''
     @ joinWith '', '' (if Webp \<in> set fmts then srcsetOf Webp outs else srcsetOf Avif outs)
     @ ''"\<newline>  sizes="'' @ sizesIn
     @ ''"\<newline>  alt=""\<newline>  loading="lazy"\<newline>  decoding="async"\<newline>/>''\<close>

definition sourceTag :: "format \<Rightarrow> string list \<Rightarrow> string \<Rightarrow> string" where
  \<open>sourceTag fm srcset sizesIn =
     ''<source type="image/'' @ fmtName fm @ ''" srcset="'' @ joinWith '', '' srcset
     @ ''" sizes="'' @ sizesIn @ ''">''\<close>

definition pictureSnippet :: "string \<Rightarrow> format list \<Rightarrow> int list \<Rightarrow> string \<Rightarrow> output list \<Rightarrow> string" where
  \<open>pictureSnippet baseName fmts finalWidths sizesIn outs =
     (if 1 < length fmts then
        ''<picture>\<newline>  ''
        @ (if length (srcsetOf Avif outs) \<noteq> 0 then sourceTag Avif (srcsetOf Avif outs) sizesIn else [])
        @ ''\<newline>  ''
        @ (if length (srcsetOf Webp outs) \<noteq> 0 then sourceTag Webp (srcsetOf Webp outs) sizesIn else [])
        @ ''\<newline>  <img src="'' @ baseSrc baseName fmts finalWidths
        @ ''" alt="" loading="lazy" decoding="async">\<newline></picture>''
      else imgSnippet baseName fmts finalWidths sizesIn outs)\<close>

definition widthsFormatsLine :: "int list \<Rightarrow> format list \<Rightarrow> string" where
  "widthsFormatsLine ws fmts =
     ''<!-- widths: '' @ joinWith '', '' (map numToString ws)
     @ '' | formats: '' @ joinWith '', '' (map fmtName fmts) @ '' -->''"

text \<open>Lines 195 to 205.\<close>

definition snippetDoc :: "string \<Rightarrow> format list \<Rightarrow> int list \<Rightarrow> string \<Rightarrow> output list \<Rightarrow> string" where
  "snippetDoc baseName fmts finalWidths sizesIn outs =
     ''<!-- WebReady output -->\<newline>'' @ widthsFormatsLine finalWidths fmts
     @ ''\<newline><!-- sizes: '' @ sizesIn @ '' -->\<newline>\<newline><!-- Option A: <img> -->\<newline>''
     @ imgSnippet baseName fmts finalWidths sizesIn outs
     @ ''\<newline>\<newline><!-- Option B: <picture> -->\<newline>''
     @ pictureSnippet baseName fmts finalWidths sizesIn outs @ ''\<newline>''"

text \<open>Lines 342 to 351.\<close>

definition snippetDocBatch :: "string \<Rightarrow> format list \<Rightarrow> int list \<Rightarrow> string \<Rightarrow> output list \<Rightarrow> string" where
  "snippetDocBatch baseName fmts finalWidths sizesIn outs =
     ''<!-- '' @ baseName @ '' -->\<newline>'' @ widthsFormatsLine finalWidths fmts
     @ ''\<newline>\<newline>'' @ imgSnippet baseName fmts finalWidths sizesIn outs
     @ ''\<newline>\<newline><!-- Or use <picture> for multiple formats: -->\<newline>''
     @ pictureSnippet baseName fmts finalWidths sizesIn outs @ ''\<newline>\<newline>''"

text \<open>Lines 375 to 381: the count in the header is \<^verbatim>\<open>files.length\<close>, the widths are the
  resolved ones.\<close>

definition combinedSnippets :: "nat \<Rightarrow> int list \<Rightarrow> format list \<Rightarrow> string list \<Rightarrow> string" where
  "combinedSnippets filesLength ws fmts allSnippets =
     ''<!-- WebReady Batch Output -->\<newline><!-- '' @ numToString (int filesLength)
     @ '' images processed -->\<newline>'' @ widthsFormatsLine ws fmts @ ''\<newline>\<newline>''
     @ joinWith ''\<newline>---\<newline>\<newline>'' allSnippets @ ''\<newline>''"

subsection \<open>The handlers\<close>

text \<open>The error responses, named as the specification names them:
  \<^item> \<open>MissingInput\<close>: 400, "Missing file" (single) or "No files provided" (batch);
  \<^item> \<open>UnreadableMetadata\<close>: 400, "Could not read image metadata";
  \<^item> \<open>WidthUndetermined\<close>: 400, "Could not determine image width from metadata.";
  \<^item> \<open>AllWidthsExceedOriginal origW\<close>: 400, "All requested widths exceed original width (origW px).";
  \<^item> \<open>EncodingFailure\<close>: 500, "Image processing failed in sharp.";
  \<^item> \<open>NoImagesProcessable\<close>: 400, "No images could be processed.";
  \<^item> \<open>UnexpectedError\<close>: 500, "Unexpected server error.", the outer \<^verbatim>\<open>catch\<close> of
    lines 218 to 221.
  A successful response is the zip: its file name and the entries appended to it.\<close>

datatype error =
    MissingInput
  | UnreadableMetadata
  | WidthUndetermined
  | AllWidthsExceedOriginal int
  | EncodingFailure
  | NoImagesProcessable
  | UnexpectedError

text \<open>\<^verbatim>\<open>res.setHeader(name, value)\<close> throws when the value has a character outside TAB,
  0x20 to 0x7E and 0x80 to 0xFF. The value of line 209 contains the base name, which comes
  from the request; the header values of the batch handler are constants.\<close>

definition validHeaderChar :: "char \<Rightarrow> bool" where
  "validHeaderChar c =
     (let n = (of_char c :: nat) in n = 9 \<or> (32 \<le> n \<and> n \<le> 126) \<or> 128 \<le> n)"

definition contentDisposition :: "string \<Rightarrow> string" where
  \<open>contentDisposition baseName = ''attachment; filename="'' @ baseName @ ''-assets.zip"''\<close>

record archive =
  zipName :: string
  entries :: "(string \<times> string) list"

definition feasible :: "int list \<Rightarrow> int \<Rightarrow> int list" where
  "feasible ws origW = filter (\<lambda>w. w \<le> origW) ws"

text \<open>\<^verbatim>\<open>POST /process\<close>, lines 89 to 222. When the outputs are encoded, the
  \<^verbatim>\<open>Content-Disposition\<close> header is set before anything is written; if that throws, the
  outer \<^verbatim>\<open>catch\<close> answers, as no header has been sent.\<close>

definition process :: "sharp \<Rightarrow> body \<Rightarrow> upload option \<Rightarrow> (error + archive) \<times> call list" where
  "process sh b fileOpt =
     (case fileOpt of
        None \<Rightarrow> (Inl MissingInput, [])
      | Some f \<Rightarrow>
          (let ws = resolveWidths (widths b);
               fmts = resolveFormats (formats b);
               baseName = baseNameSingle b f;
               sizesIn = orElse (sizes b) (defaultSizes ws)
           in case metadata sh (buffer f) of
                MetadataError \<Rightarrow> (Inl UnreadableMetadata, [])
              | Metadata None \<Rightarrow> (Inl WidthUndetermined, [])
              | Metadata (Some origW) \<Rightarrow>
                  if origW = 0 then (Inl WidthUndetermined, [])
                  else let finalWidths = feasible ws origW
                       in if length finalWidths = 0 then (Inl (AllWidthsExceedOriginal origW), [])
                          else (case encodeLoop sh (buffer f) baseName fmts (qWebp b) (qAvif b)
                                       finalWidths ([], []) of
                                  (None, calls) \<Rightarrow> (Inl EncodingFailure, calls)
                                | (Some outs, calls) \<Rightarrow>
                                    if list_all validHeaderChar (contentDisposition baseName)
                                    then (Inr \<lparr>zipName = baseName @ ''-assets.zip'',
                                               entries = map (\<lambda>out. (name out, buf out)) outs
                                                 @ [(''snippet.html'',
                                                     snippetDoc baseName fmts finalWidths sizesIn
                                                       outs)]\<rparr>,
                                          calls)
                                    else (Inl UnexpectedError, calls))))"

text \<open>\<^verbatim>\<open>POST /process-batch\<close>, lines 233 to 389. The reasons for which the loop body
  leaves an image by \<^verbatim>\<open>continue\<close> (each is logged with \<^verbatim>\<open>console.error\<close>):\<close>

datatype skip = SkipMetadata | SkipNoWidth | SkipAllWidthsExceed int | SkipProcessing

text \<open>The body of the loop of lines 264 to 355 for one file: a \<^verbatim>\<open>continue\<close>, or the
  outputs and the snippet document that the two \<^verbatim>\<open>push\<close> calls at its end add.\<close>

definition processImage ::
  "sharp \<Rightarrow> int list \<Rightarrow> format list \<Rightarrow> jsnum \<Rightarrow> jsnum \<Rightarrow> upload
     \<Rightarrow> (skip + output list \<times> string) \<times> call list" where
  "processImage sh ws fmts qw qa f =
     (let baseName = baseNameBatch f
      in case metadata sh (buffer f) of
           MetadataError \<Rightarrow> (Inl SkipMetadata, [])
         | Metadata None \<Rightarrow> (Inl SkipNoWidth, [])
         | Metadata (Some origW) \<Rightarrow>
             if origW = 0 then (Inl SkipNoWidth, [])
             else let finalWidths = feasible ws origW
                  in if length finalWidths = 0 then (Inl (SkipAllWidthsExceed origW), [])
                     else (case encodeLoop sh (buffer f) baseName fmts qw qa finalWidths ([], []) of
                             (None, calls) \<Rightarrow> (Inl SkipProcessing, calls)
                           | (Some outs, calls) \<Rightarrow>
                               (Inr (outs,
                                     snippetDocBatch baseName fmts finalWidths
                                       (defaultSizes finalWidths) outs),
                                calls)))"

fun batchLoop ::
  "sharp \<Rightarrow> int list \<Rightarrow> format list \<Rightarrow> jsnum \<Rightarrow> jsnum \<Rightarrow> upload list
     \<Rightarrow> output list \<times> string list \<times> call list \<Rightarrow> output list \<times> string list \<times> call list" where
  "batchLoop sh ws fmts qw qa [] st = st"
| "batchLoop sh ws fmts qw qa (f # fs) (allOutputs, allSnippets, calls) =
     (case processImage sh ws fmts qw qa f of
        (Inl reason, calls1) \<Rightarrow>
          batchLoop sh ws fmts qw qa fs (allOutputs, allSnippets, calls @ calls1)
      | (Inr (outs, doc), calls1) \<Rightarrow>
          batchLoop sh ws fmts qw qa fs (allOutputs @ outs, allSnippets @ [doc], calls @ calls1))"

definition processBatch :: "sharp \<Rightarrow> body \<Rightarrow> upload list \<Rightarrow> (error + archive) \<times> call list" where
  "processBatch sh b files =
     (if length files = 0 then (Inl MissingInput, [])
      else let ws = resolveWidths (widths b);
               fmts = resolveFormats (formats b)
           in (case batchLoop sh ws fmts (qWebp b) (qAvif b) files ([], [], []) of
                 (allOutputs, allSnippets, calls) \<Rightarrow>
                   if length allOutputs = 0 then (Inl NoImagesProcessable, calls)
                   else (Inr \<lparr>zipName = ''webready-batch.zip'',
                              entries = map (\<lambda>out. (name out, buf out)) allOutputs
                                @ [(''snippets.html'',
                                    combinedSnippets (length files) ws fmts allSnippets)]\<rparr>,
                         calls)))"

text \<open>Shorthand for the loop body and the loop of \<^verbatim>\<open>/process-batch\<close> under the
  configuration resolved from a request body.\<close>

abbreviation imageResult :: "sharp \<Rightarrow> body \<Rightarrow> upload \<Rightarrow> (skip + output list \<times> string) \<times> call list" where
  "imageResult sh b f \<equiv>
     processImage sh (resolveWidths (widths b)) (resolveFormats (formats b)) (qWebp b) (qAvif b) f"

abbreviation batchState :: "sharp \<Rightarrow> body \<Rightarrow> upload list \<Rightarrow> output list \<times> string list \<times> call list" where
  "batchState sh b files \<equiv>
     batchLoop sh (resolveWidths (widths b)) (resolveFormats (formats b)) (qWebp b) (qAvif b)
       files ([], [], [])"

subsection \<open>Example inputs\<close>

text \<open>An image library under which every image is 1000 pixels wide, except that the bytes
  \<open>corrupt\<close> cannot be probed, the bytes \<open>tiny\<close> are an image 100 pixels wide, and the
  bytes \<open>unencodable\<close> cannot be encoded at width 768; a request body without fields; four
  uploads.\<close>

definition exampleSharp :: sharp where
  "exampleSharp =
     \<lparr>metadata = (\<lambda>bytes. if bytes = ''corrupt'' then MetadataError
                          else if bytes = ''tiny'' then Metadata (Some 100)
                          else Metadata (Some 1000)),
      toBuffer = (\<lambda>bytes w fm q. if bytes = ''unencodable'' \<and> w = 768 then None
                                  else Some (fmtName fm @ '':'' @ numToString w))\<rparr>"

definition noFields :: body where
  "noFields = \<lparr>widths = None, formats = None, quality_webp = None, quality_avif = None,
               basename = None, sizes = None\<rparr>"

definition photo :: upload where
  "photo = \<lparr>originalname = Some ''photo.jpg'', buffer = ''pixels''\<rparr>"

definition corrupt :: upload where
  "corrupt = \<lparr>originalname = Some ''broken.png'', buffer = ''corrupt''\<rparr>"

definition tiny :: upload where
  "tiny = \<lparr>originalname = Some ''icon.png'', buffer = ''tiny''\<rparr>"

definition unencodable :: upload where
  "unencodable = \<lparr>originalname = Some ''odd.png'', buffer = ''unencodable''\<rparr>"

section \<open>Properties\<close>

subsection \<open>Numbers and names\<close>

lemma of_char_digitChar:
  assumes "0 \<le> d" "d < 10"
  shows "(of_char (digitChar d) :: int) = 48 + d"
proof -
  from assms have "d = 0 \<or> d = 1 \<or> d = 2 \<or> d = 3 \<or> d = 4 \<or> d = 5 \<or> d = 6 \<or> d = 7 \<or> d = 8 \<or> d = 9"
    by arith
  then show ?thesis
    by (elim disjE) (simp_all add: digitChar_def)
qed

lemma digitChar_digit:
  assumes "0 \<le> d" "d < 10"
  shows "digitChar d \<in> set ''0123456789''"
proof -
  from assms have "nat d < length ''0123456789''"
    by simp
  then show ?thesis
    unfolding digitChar_def by (rule nth_mem)
qed

lemma digitsValue_snoc:
  "digitsValue (z @ [c]) = 10 * digitsValue z + ((of_char c :: int) - 48)"
  by (simp add: digitsValue_def)

lemma digitsValue_digitsOf: "0 \<le> n \<Longrightarrow> digitsValue (digitsOf n) = n"
proof (induction n rule: digitsOf.induct)
  case (1 n)
  show ?case
  proof (cases "n < 10")
    case True
    with "1.prems" show ?thesis
      by (subst digitsOf.simps) (simp add: digitsValue_def of_char_digitChar)
  next
    case False
    then have ih: "digitsValue (digitsOf (n div 10)) = n div 10"
      using "1.IH" by simp
    have "digitsOf n = digitsOf (n div 10) @ [digitChar (n mod 10)]"
      using False by (subst digitsOf.simps) simp
    then show ?thesis
      by (simp add: digitsValue_snoc ih of_char_digitChar)
  qed
qed


lemma digitsOf_inj:
  assumes "0 \<le> a" "0 \<le> b" "digitsOf a = digitsOf b"
  shows "a = b"
proof -
  from assms(3) have "digitsValue (digitsOf a) = digitsValue (digitsOf b)"
    by simp
  with assms(1,2) show ?thesis
    by (simp add: digitsValue_digitsOf)
qed

lemma digitsOf_digits: "0 \<le> n \<Longrightarrow> set (digitsOf n) \<subseteq> set ''0123456789''"
proof (induction n rule: digitsOf.induct)
  case (1 n)
  show ?case
  proof (cases "n < 10")
    case True
    have "digitsOf n = [digitChar n]"
      using True by (subst digitsOf.simps) simp
    moreover have "digitChar n \<in> set ''0123456789''"
      using True "1.prems" by (intro digitChar_digit)
    ultimately show ?thesis by simp
  next
    case False
    then have ih: "set (digitsOf (n div 10)) \<subseteq> set ''0123456789''"
      using "1.IH" by simp
    have eq: "digitsOf n = digitsOf (n div 10) @ [digitChar (n mod 10)]"
      using False by (subst digitsOf.simps) simp
    have "digitChar (n mod 10) \<in> set ''0123456789''"
      by (intro digitChar_digit) simp_all
    with ih show ?thesis
      unfolding eq by simp
  qed
qed

lemma digitsOf_nonempty: "digitsOf n \<noteq> []"
  by (subst digitsOf.simps) simp

lemma digitsOf_no_e: "0 \<le> n \<Longrightarrow> CHR ''e'' \<notin> set (digitsOf n)"
  using digitsOf_digits[of n] by auto

lemma digitsOf_zero: "digitsOf 0 = ''0''"
  by (subst digitsOf.simps) (simp add: digitChar_def)

lemma digitsValue_zeros: "digitsValue (replicate k (CHR ''0'')) = 0"
proof (induction k)
  case 0
  show ?case by (simp add: digitsValue_def)
next
  case (Suc k)
  have "replicate (Suc k) (CHR ''0'') = replicate k (CHR ''0'') @ [CHR ''0'']"
    by (simp only: replicate_Suc replicate_append_same)
  then have "digitsValue (replicate (Suc k) (CHR ''0''))
               = 10 * digitsValue (replicate k (CHR ''0'')) + ((of_char (CHR ''0'') :: int) - 48)"
    by (simp only: digitsValue_snoc)
  with Suc show ?case by simp
qed

lemma takeWhile_eq_replicate:
  "takeWhile (\<lambda>c. c = z) xs = replicate (length (takeWhile (\<lambda>c. c = z) xs)) z"
  by (induction xs) auto

text \<open>A string is its significant part followed by zeros.\<close>

lemma strip_zeros:
  "ds = rev (dropWhile (\<lambda>c. c = CHR ''0'') (rev ds))
          @ replicate (length ds - length (rev (dropWhile (\<lambda>c. c = CHR ''0'') (rev ds)))) (CHR ''0'')"
proof -
  let ?P = "\<lambda>c. c = CHR ''0''"
  have "ds = rev (rev ds)"
    by simp
  also have "\<dots> = rev (takeWhile ?P (rev ds) @ dropWhile ?P (rev ds))"
    by (simp only: takeWhile_dropWhile_id)
  also have "\<dots> = rev (dropWhile ?P (rev ds)) @ rev (takeWhile ?P (rev ds))"
    by (rule rev_append)
  finally have d: "ds = rev (dropWhile ?P (rev ds)) @ rev (takeWhile ?P (rev ds))" .
  have "length ds = length (rev (dropWhile ?P (rev ds))) + length (takeWhile ?P (rev ds))"
    by (subst d) simp
  then have l: "length (takeWhile ?P (rev ds)) = length ds - length (rev (dropWhile ?P (rev ds)))"
    by simp
  have "rev (takeWhile ?P (rev ds)) = replicate (length (takeWhile ?P (rev ds))) (CHR ''0'')"
    by (subst takeWhile_eq_replicate) simp
  with d l show ?thesis
    by simp
qed

lemma sig_nonempty:
  assumes "0 < y"
  shows "rev (dropWhile (\<lambda>c. c = CHR ''0'') (rev (digitsOf y))) \<noteq> []"
proof
  assume "rev (dropWhile (\<lambda>c. c = CHR ''0'') (rev (digitsOf y))) = []"
  with strip_zeros[of "digitsOf y"] have "digitsOf y = replicate (length (digitsOf y)) (CHR ''0'')"
    by simp
  then have "digitsValue (digitsOf y) = 0"
    using digitsValue_zeros by metis
  with assms show False
    by (simp add: digitsValue_digitsOf)
qed

lemma expForm_inj:
  assumes y: "0 < y" and y': "0 < y'"
    and eq: "expForm (digitsOf y) = expForm (digitsOf y')"
  shows "y = y'"
proof -
  define ds where "ds = digitsOf y"
  define ds' where "ds' = digitsOf y'"
  define sig where "sig = rev (dropWhile (\<lambda>c. c = CHR ''0'') (rev ds))"
  define sig' where "sig' = rev (dropWhile (\<lambda>c. c = CHR ''0'') (rev ds'))"
  define ex where "ex = digitsOf (int (length ds) - 1)"
  define ex' where "ex' = digitsOf (int (length ds') - 1)"
  have E: "expForm ds = (if length sig = 1 then sig @ ''e+'' @ ex
                         else hd sig # CHR ''.'' # tl sig @ ''e+'' @ ex)"
    by (simp add: expForm_def Let_def sig_def ex_def)
  have E': "expForm ds' = (if length sig' = 1 then sig' @ ''e+'' @ ex'
                           else hd sig' # CHR ''.'' # tl sig' @ ''e+'' @ ex')"
    by (simp add: expForm_def Let_def sig'_def ex'_def)
  have eq2: "expForm ds = expForm ds'"
    using eq by (simp add: ds_def ds'_def)
  have ne: "sig \<noteq> []" "sig' \<noteq> []"
    unfolding sig_def sig'_def ds_def ds'_def using y y' by (simp_all only: sig_nonempty not_False_eq_True)
  have sub: "set sig \<subseteq> set ds" "set sig' \<subseteq> set ds'"
    unfolding sig_def sig'_def by (auto dest: set_dropWhileD)
  have "CHR ''e'' \<notin> set ds" "CHR ''e'' \<notin> set ds'"
    unfolding ds_def ds'_def using y y' by (simp_all add: digitsOf_no_e)
  with sub have se: "CHR ''e'' \<notin> set sig" "CHR ''e'' \<notin> set sig'"
    by blast+
  have both: "sig = sig' \<and> ex = ex'"
  proof (cases "length sig = 1")
    case True
    then obtain d where s1: "sig = [d]"
      by (cases sig) auto
    show ?thesis
    proof (cases "length sig' = 1")
      case True
      then obtain d' where s2: "sig' = [d']"
        by (cases sig') auto
      from eq2 show ?thesis
        unfolding E E' s1 s2 by simp
    next
      case False
      with ne(2) obtain h t where s2: "sig' = h # t" and t: "t \<noteq> []"
        by (cases sig') auto
      from eq2 have "d # ''e+'' @ ex = h # CHR ''.'' # t @ ''e+'' @ ex'"
        unfolding E E' s1 s2 using t by simp
      then show ?thesis by simp
    qed
  next
    case False
    with ne(1) obtain h t where s1: "sig = h # t" and t: "t \<noteq> []"
      by (cases sig) auto
    show ?thesis
    proof (cases "length sig' = 1")
      case True
      then obtain d' where s2: "sig' = [d']"
        by (cases sig') auto
      from eq2 have "h # CHR ''.'' # t @ ''e+'' @ ex = d' # ''e+'' @ ex'"
        unfolding E E' s1 s2 using t by simp
      then show ?thesis by simp
    next
      case False
      with ne(2) obtain h' t' where s2: "sig' = h' # t'" and t': "t' \<noteq> []"
        by (cases sig') auto
      from eq2 have e2: "h = h'" "t @ CHR ''e'' # (CHR ''+'' # ex) = t' @ CHR ''e'' # (CHR ''+'' # ex')"
        unfolding E E' s1 s2 using t t' by simp_all
      have "0 \<le> int (length ds) - 1"
        using digitsOf_nonempty[of y] by (simp add: ds_def Suc_leI)
      then have "CHR ''e'' \<notin> set ex"
        unfolding ex_def by (rule digitsOf_no_e)
      then have "CHR ''e'' \<notin> set (CHR ''+'' # ex)"
        by simp
      moreover have "CHR ''e'' \<notin> set t"
        using se s1 by auto
      ultimately have "(t @ CHR ''e'' # (CHR ''+'' # ex) = t' @ CHR ''e'' # (CHR ''+'' # ex'))
                   = (t = t' \<and> CHR ''+'' # ex = CHR ''+'' # ex')"
        by (intro append_Cons_eq_iff)
      with e2 show ?thesis
        unfolding s1 s2 by simp
    qed
  qed
  have l: "0 \<le> int (length ds) - 1" "0 \<le> int (length ds') - 1"
    using digitsOf_nonempty[of y] digitsOf_nonempty[of y']
    by (simp_all add: ds_def ds'_def Suc_leI)
  from both have "digitsOf (int (length ds) - 1) = digitsOf (int (length ds') - 1)"
    by (simp add: ex_def ex'_def)
  with l have "int (length ds) - 1 = int (length ds') - 1"
    by (rule digitsOf_inj)
  then have len: "length ds = length ds'"
    by simp
  have a: "ds = sig @ replicate (length ds - length sig) (CHR ''0'')"
    unfolding sig_def by (rule strip_zeros)
  have b: "ds' = sig' @ replicate (length ds' - length sig') (CHR ''0'')"
    unfolding sig'_def by (rule strip_zeros)
  have "ds = ds'"
    by (subst a, subst b) (simp add: both len)
  then have "digitsOf y = digitsOf y'"
    by (simp add: ds_def ds'_def)
  with y y' show ?thesis
    using digitsOf_inj[of y y'] by simp
qed

lemma expForm_has_e: "CHR ''e'' \<in> set (expForm ds)"
  by (simp add: expForm_def Let_def)

lemma render_inj:
  assumes "0 \<le> y" "0 \<le> y'" "render y = render y'"
  shows "y = y'"
proof -
  have pos: "0 < z" if "0 \<le> z" "\<not> length (digitsOf z) \<le> 21" for z
  proof (rule ccontr)
    assume "\<not> 0 < z"
    with that(1) have "z = 0" by simp
    with that(2) show False by (simp add: digitsOf_zero)
  qed
  consider "length (digitsOf y) \<le> 21" "length (digitsOf y') \<le> 21"
    | "length (digitsOf y) \<le> 21" "\<not> length (digitsOf y') \<le> 21"
    | "\<not> length (digitsOf y) \<le> 21" "length (digitsOf y') \<le> 21"
    | "\<not> length (digitsOf y) \<le> 21" "\<not> length (digitsOf y') \<le> 21"
    by blast
  then show ?thesis
  proof cases
    case 1
    with assms show ?thesis
      by (simp add: render_def digitsOf_inj)
  next
    case 2
    with assms(3) have "digitsOf y = expForm (digitsOf y')"
      by (simp add: render_def)
    then have "CHR ''e'' \<in> set (digitsOf y)"
      using expForm_has_e by simp
    with assms(1) show ?thesis
      by (simp add: digitsOf_no_e)
  next
    case 3
    with assms(3) have "digitsOf y' = expForm (digitsOf y)"
      by (simp add: render_def)
    then have "CHR ''e'' \<in> set (digitsOf y')"
      using expForm_has_e by simp
    with assms(2) show ?thesis
      by (simp add: digitsOf_no_e)
  next
    case 4
    with assms(3) have "expForm (digitsOf y) = expForm (digitsOf y')"
      by (simp add: render_def)
    moreover have "0 < y" "0 < y'"
      using pos assms(1,2) 4 by blast+
    ultimately show ?thesis
      by (intro expForm_inj)
  qed
qed

lemma candidates_round: "y \<in> set (candidates x k) \<Longrightarrow> roundToDouble y = Some x"
  by (auto simp: candidates_def Let_def split: if_splits)

lemma candidates_nonneg:
  assumes "0 \<le> x" "y \<in> set (candidates x k)"
  shows "0 \<le> y"
proof -
  let ?p = "(10::int) ^ (length (digitsOf x) - k)"
  have p: "0 < ?p" by simp
  have "0 \<le> x div ?p"
    using assms(1) p by (simp add: pos_imp_zdiv_nonneg_iff)
  then have "0 \<le> (x div ?p) * ?p"
    by simp
  with assms(2) p show ?thesis
    by (auto simp: candidates_def Let_def split: if_splits)
qed

lemma shortest_round:
  "shortest x ks = x \<or> roundToDouble (shortest x ks) = Some x"
proof (induction ks)
  case Nil
  show ?case by simp
next
  case (Cons k ks)
  show ?case
  proof (cases "candidates x k")
    case Nil
    with Cons show ?thesis by simp
  next
    case (Cons y ys)
    then have "y \<in> set (candidates x k)" by simp
    then have "roundToDouble y = Some x" by (rule candidates_round)
    with Cons show ?thesis by simp
  qed
qed

lemma shortest_nonneg: "0 \<le> x \<Longrightarrow> 0 \<le> shortest x ks"
proof (induction ks)
  case Nil
  then show ?case by simp
next
  case (Cons k ks)
  show ?case
  proof (cases "candidates x k")
    case Nil
    with Cons show ?thesis by simp
  next
    case c: (Cons y ys)
    then have "y \<in> set (candidates x k)" by simp
    with Cons.prems have "0 \<le> y" by (rule candidates_nonneg)
    with c show ?thesis by simp
  qed
qed

lemma decimalOf_round:
  assumes "roundToDouble x = Some x"
  shows "roundToDouble (decimalOf x) = Some x"
  using assms shortest_round[of x "[1 ..< Suc (length (digitsOf x))]"]
  by (auto simp: decimalOf_def)

lemma decimalOf_nonneg: "0 \<le> x \<Longrightarrow> 0 \<le> decimalOf x"
  by (simp add: decimalOf_def shortest_nonneg)

lemma numToString_inj_double:
  assumes "0 \<le> a" "0 \<le> b"
    and "roundToDouble a = Some a" "roundToDouble b = Some b"
    and "numToString a = numToString b"
  shows "a = b"
proof -
  from assms(1,2,5) have "render (decimalOf a) = render (decimalOf b)"
    by (simp add: numToString_def)
  then have "decimalOf a = decimalOf b"
    using assms(1,2) by (intro render_inj decimalOf_nonneg)
  then have "roundToDouble (decimalOf a) = roundToDouble (decimalOf b)"
    by simp
  with assms(3,4) show ?thesis
    by (simp add: decimalOf_round)
qed

lemma div_bounds:
  fixes n p A B :: int
  assumes p: "0 < p" and lo: "A * p \<le> n" and hi: "n < B * p"
  shows "A \<le> n div p \<and> n div p < B"
proof -
  have "A * p div p \<le> n div p"
    using lo p by (rule zdiv_mono1)
  then have a: "A \<le> n div p"
    using p by simp
  have "n = (n div p) * p + n mod p"
    by simp
  moreover have "0 \<le> n mod p"
    using p by (rule pos_mod_sign)
  ultimately have "(n div p) * p \<le> n"
    by linarith
  with hi have "(n div p) * p < B * p"
    by simp
  then have "n div p < B"
    using p by (simp add: mult_less_cancel_right_pos)
  with a show ?thesis by simp
qed

lemma bitLength_bounds:
  "0 < n \<Longrightarrow> 2 ^ (bitLength n - 1) \<le> n \<and> n < 2 ^ bitLength n"
proof (induction n rule: bitLength.induct)
  case (1 n)
  have bl: "bitLength n = Suc (bitLength (n div 2))"
    using "1.prems" by (subst bitLength.simps) simp
  show ?case
  proof (cases "n div 2 \<le> 0")
    case True
    with "1.prems" have n1: "n = 1" by simp
    have "bitLength (n div 2) = 0"
      using True by (subst bitLength.simps) simp
    with bl n1 show ?thesis by simp
  next
    case False
    then have pos: "0 < n div 2" by simp
    with "1.IH" "1.prems" have ih: "2 ^ (bitLength (n div 2) - 1) \<le> n div 2"
      "n div 2 < 2 ^ bitLength (n div 2)"
      by simp_all
    have b1: "0 < bitLength (n div 2)"
      using pos by (subst bitLength.simps) simp
    then have "(2::int) ^ bitLength (n div 2) = 2 * 2 ^ (bitLength (n div 2) - 1)"
      by (cases "bitLength (n div 2)") simp_all
    with ih(1) have l: "2 ^ bitLength (n div 2) \<le> n"
      by simp
    from ih(2) have u: "n < 2 * 2 ^ bitLength (n div 2)"
      by simp
    from l u show ?thesis
      unfolding bl by simp
  qed
qed

lemma bitLength_eq:
  "2 ^ k \<le> n \<Longrightarrow> n < 2 ^ Suc k \<Longrightarrow> bitLength n = Suc k"
proof (induction k arbitrary: n)
  case 0
  then have n1: "n = 1" by simp
  have "bitLength 0 = 0"
    by (subst bitLength.simps) simp
  then show ?case
    unfolding n1 by (subst bitLength.simps) simp
next
  case (Suc k)
  from Suc.prems have "2 ^ k \<le> n div 2" "n div 2 < 2 ^ Suc k"
    by simp_all
  then have "bitLength (n div 2) = Suc k"
    by (rule Suc.IH)
  moreover have "0 < n"
  proof -
    have "(0::int) < 2 ^ Suc k" by simp
    with Suc.prems(1) show ?thesis by linarith
  qed
  ultimately show ?case
    by (subst bitLength.simps) simp
qed

lemma roundToDouble_exact:
  fixes q :: int
  assumes q: "2 ^ 52 \<le> q" "q < 2 ^ 53" and e: "0 < e" and m: "q * 2 ^ e < 2 ^ 1024"
  shows "roundToDouble (q * 2 ^ e) = Some (q * 2 ^ e)"
proof -
  let ?m = "q * 2 ^ e"
  have p: "(0::int) < 2 ^ e" by simp
  have lo: "(2::int) ^ (52 + e) \<le> ?m"
    using q(1) by (simp add: power_add mult_right_mono)
  have hi: "?m < 2 ^ Suc (52 + e)"
  proof -
    have "?m < 2 ^ 53 * 2 ^ e"
      using q(2) p by (simp add: mult_strict_right_mono)
    also have "\<dots> = 2 ^ Suc (52 + e)"
      by (simp add: power_add)
    finally show ?thesis .
  qed
  have bl: "bitLength ?m = Suc (52 + e)"
    using lo hi by (rule bitLength_eq)
  have big: "\<not> ?m < 2 ^ 53"
  proof -
    have "(2::int) ^ 53 \<le> 2 ^ (52 + e)"
      using e by (intro power_increasing) simp_all
    with lo show ?thesis by simp
  qed
  have ee: "bitLength ?m - 53 = e"
    unfolding bl by simp
  have h: "(0::int) < 2 ^ (e - 1)" by simp
  show ?thesis
    unfolding roundToDouble_def Let_def ee using big m h by simp
qed

lemma roundToDouble_idem:
  assumes "roundToDouble n = Some m"
  shows "roundToDouble m = Some m"
proof (cases "n < 2 ^ 53")
  case True
  with assms have "m = n" by (simp add: roundToDouble_def)
  with True show ?thesis by (simp add: roundToDouble_def)
next
  case False
  define e where "e = bitLength n - 53"
  define q where "q = n div 2 ^ e"
  define r where "r = n mod 2 ^ e"
  define q' where "q' = (if 2 ^ (e - 1) < r \<or> (r = 2 ^ (e - 1) \<and> odd q) then q + 1 else q)"
  have key: "(if q' * 2 ^ e < 2 ^ 1024 then Some (q' * 2 ^ e) else None) = Some m"
    using assms False unfolding roundToDouble_def Let_def q'_def q_def r_def e_def by simp
  have small: "q' * 2 ^ e < 2 ^ 1024"
  proof (rule ccontr)
    assume "\<not> q' * 2 ^ e < 2 ^ 1024"
    with key show False by (simp only: if_False option.distinct)
  qed
  with key have m: "m = q' * 2 ^ e"
    by (simp only: if_True option.inject)
  have npos: "0 < n"
  proof -
    have "(0::int) < 2 ^ 53" by simp
    with False show ?thesis by linarith
  qed
  from bitLength_bounds[OF npos] have bl: "2 ^ (bitLength n - 1) \<le> n" "n < 2 ^ bitLength n"
    by simp_all
  have L: "53 < bitLength n"
  proof (rule ccontr)
    assume "\<not> 53 < bitLength n"
    then have "bitLength n \<le> 53" by simp
    then have "(2::int) ^ bitLength n \<le> 2 ^ 53"
      by (intro power_increasing) simp_all
    with bl(2) False show False by simp
  qed
  then have e: "0 < e" and Le: "bitLength n = 53 + e"
    by (simp_all add: e_def)
  have p: "(0::int) < 2 ^ e" by simp
  have "(2::int) ^ 52 * 2 ^ e \<le> n"
    using bl(1) by (simp add: Le power_add)
  moreover have "n < 2 ^ 53 * 2 ^ e"
    using bl(2) by (simp add: Le power_add)
  ultimately have qb: "2 ^ 52 \<le> q" "q < 2 ^ 53"
    using div_bounds[OF p] unfolding q_def by blast+
  then have q'b: "2 ^ 52 \<le> q'" "q' \<le> 2 ^ 53"
    by (simp_all add: q'_def)
  show ?thesis
  proof (cases "q' < 2 ^ 53")
    case True
    with q'b(1) e small show ?thesis
      unfolding m by (intro roundToDouble_exact)
  next
    case False
    with q'b(2) have q53: "q' = 2 ^ 53" by simp
    have "m = 2 ^ 52 * 2 ^ Suc e"
      unfolding m q53 by simp
    moreover have "roundToDouble (2 ^ 52 * 2 ^ Suc e) = Some (2 ^ 52 * 2 ^ Suc e)"
    proof (rule roundToDouble_exact)
      show "(2::int) ^ 52 \<le> 2 ^ 52" by simp
      show "(2::int) ^ 52 < 2 ^ 53" by simp
      show "0 < Suc e" by simp
      show "(2::int) ^ 52 * 2 ^ Suc e < 2 ^ 1024"
        using small unfolding q53 by simp
    qed
    ultimately show ?thesis by simp
  qed
qed

lemma isDigit_int: "isDigit c \<Longrightarrow> 48 \<le> (of_char c :: int)"
proof -
  assume "isDigit c"
  then have "48 \<le> (of_char c :: nat)"
    by (simp add: isDigit_def)
  then have "int 48 \<le> int (of_char c)"
    by (simp only: of_nat_le_iff)
  then show ?thesis
    by (simp add: of_nat_of_char)
qed

lemma digitsValue_nonneg: "\<forall>c\<in>set z. isDigit c \<Longrightarrow> 0 \<le> digitsValue z"
proof (induction z rule: rev_induct)
  case Nil
  show ?case by (simp add: digitsValue_def)
next
  case (snoc c z)
  then have "0 \<le> digitsValue z" and "48 \<le> (of_char c :: int)"
    by (simp_all add: isDigit_int)
  then show ?case
    by (simp add: digitsValue_snoc)
qed

lemma roundToDouble_nonneg:
  assumes "roundToDouble n = Some m" and "0 \<le> n"
  shows "0 \<le> m"
proof (cases "n < 2 ^ 53")
  case True
  with assms show ?thesis by (simp add: roundToDouble_def)
next
  case False
  define e where "e = bitLength n - 53"
  define q where "q = n div 2 ^ e"
  define r where "r = n mod 2 ^ e"
  define q' where "q' = (if 2 ^ (e - 1) < r \<or> (r = 2 ^ (e - 1) \<and> odd q) then q + 1 else q)"
  have key: "(if q' * 2 ^ e < 2 ^ 1024 then Some (q' * 2 ^ e) else None) = Some m"
    using assms(1) False unfolding roundToDouble_def Let_def q'_def q_def r_def e_def by simp
  have small: "q' * 2 ^ e < 2 ^ 1024"
  proof (rule ccontr)
    assume "\<not> q' * 2 ^ e < 2 ^ 1024"
    with key show False by (simp only: if_False option.distinct)
  qed
  with key have m: "m = q' * 2 ^ e"
    by (simp only: if_True option.inject)
  have "0 \<le> q"
    unfolding q_def using assms(2) by (simp add: pos_imp_zdiv_nonneg_iff)
  then have "0 \<le> q'"
    by (simp add: q'_def)
  then show ?thesis
    unfolding m by simp
qed

text \<open>What is printed for a small width, for \<open>2^60\<close> (whose exact decimal ends in
  \<open>846976\<close>) and for \<open>10^21\<close>.\<close>

lemma numToString_examples:
  "numToString 1200 = ''1200''
   \<and> numToString (2 ^ 60) = ''1152921504606847000''
   \<and> numToString (10 ^ 21) = ''1e+21''"
  by code_simp

lemma fmtName_inj: "fmtName x = fmtName y \<Longrightarrow> x = y"
  by (cases x; cases y) simp_all

lemma length_fmtName: "length (fmtName x) = 4"
  by (cases x) simp_all

lemma outputName_inj:
  assumes "0 \<le> w" "0 \<le> w'" "roundToDouble w = Some w" "roundToDouble w' = Some w'"
    and "bn @ ''-'' @ numToString w @ ''.'' @ fmtName fm = bn @ ''-'' @ numToString w' @ ''.'' @ fmtName fm'"
  shows "w = w' \<and> fm = fm'"
proof -
  from assms(5) have "numToString w @ (''.'' @ fmtName fm) = numToString w' @ (''.'' @ fmtName fm')"
    by simp
  moreover have "length (''.'' @ fmtName fm) = length (''.'' @ fmtName fm')"
    by (simp add: length_fmtName)
  ultimately have "numToString w = numToString w' \<and> ''.'' @ fmtName fm = ''.'' @ fmtName fm'"
    using append_eq_append_conv[of "numToString w" "numToString w'" "''.'' @ fmtName fm" "''.'' @ fmtName fm'"]
    by blast
  with assms(1-4) show ?thesis
    by (auto dest: numToString_inj_double fmtName_inj)
qed

lemma stripExt_ext:
  "e \<noteq> [] \<Longrightarrow> CHR ''.'' \<notin> set e \<Longrightarrow> stripExt (a @ ''.'' @ e) = a"
  by (induction a) auto

lemma stripExt_no_dot: "CHR ''.'' \<notin> set s \<Longrightarrow> stripExt s = s"
  by (induction s) auto

lemma sorted_resolveWidths: "sorted (resolveWidths field)"
  by (simp add: resolveWidths_def)

lemma finitePositive_intOf: "finitePositive x \<Longrightarrow> 0 < intOf x"
  by (cases x) simp_all

lemma resolveWidths_pos: "w \<in> set (resolveWidths field) \<Longrightarrow> 0 < w"
  by (auto simp: resolveWidths_def finitePositive_intOf)

lemma parseInt_double:
  assumes "parseInt s = Num i" and "0 < i"
  shows "roundToDouble i = Some i"
proof -
  define u where "u = (let t = dropWhile isWhiteSpace s
                       in if t \<noteq> [] \<and> (hd t = CHR ''-'' \<or> hd t = CHR ''+'') then tl t else t)"
  define z where "z = takeWhile isDigit u"
  define neg where "neg = (dropWhile isWhiteSpace s \<noteq> [] \<and> hd (dropWhile isWhiteSpace s) = CHR ''-'')"
  have p: "parseInt s = (if z = [] then NaN
                         else (case roundToDouble (digitsValue z) of
                                 None \<Rightarrow> (if neg then NegInf else PosInf)
                               | Some m \<Rightarrow> Num (if neg then - m else m)))"
    unfolding parseInt_def z_def u_def neg_def Let_def by (rule refl)
  from assms(1) obtain m where r: "roundToDouble (digitsValue z) = Some m"
    and i: "i = (if neg then - m else m)"
    unfolding p by (auto split: if_splits option.splits)
  have "\<forall>c\<in>set z. isDigit c"
    unfolding z_def by (auto dest: set_takeWhileD)
  then have "0 \<le> digitsValue z"
    by (rule digitsValue_nonneg)
  with r have "0 \<le> m"
    by (rule roundToDouble_nonneg)
  with i assms(2) have "i = m"
    by (simp split: if_splits)
  with r show ?thesis
    by (simp add: roundToDouble_idem)
qed

lemma resolveWidths_double: "w \<in> set (resolveWidths field) \<Longrightarrow> roundToDouble w = Some w"
proof -
  assume "w \<in> set (resolveWidths field)"
  then obtain x where x: "finitePositive x" "w = intOf x"
    and px: "\<exists>t. x = parseInt (trim t)"
    by (auto simp: resolveWidths_def)
  from x(1) obtain i where i: "x = Num i" "0 < i"
    by (cases x) simp_all
  from px i(1) obtain t where "parseInt (trim t) = Num i"
    by auto
  then have "roundToDouble i = Some i"
    using i(2) by (rule parseInt_double)
  with x(2) i(1) show ?thesis
    by simp
qed

lemma resolveFormats_nonempty: "resolveFormats field \<noteq> []"
  by (simp add: resolveFormats_def Let_def)

subsection \<open>The loops\<close>

lemma encodeLoop_None_iff:
  "fst (encodeLoop sh bytes bn fmts qw qa ws st) = None \<longleftrightarrow>
     (\<exists>w\<in>set ws. (Webp \<in> set fmts \<and> toBuffer sh bytes w Webp qw = None)
                 \<or> (Avif \<in> set fmts \<and> toBuffer sh bytes w Avif qa = None))"
proof (induction ws arbitrary: st)
  case Nil
  show ?case by simp
next
  case (Cons w ws)
  obtain outs calls where st: "st = (outs, calls)" by (cases st)
  show ?case
    unfolding st
    by (auto simp: pushOutput_def Cons.IH split: option.splits prod.splits)
qed

lemma encodeLoop_srcsetOf:
  "encodeLoop sh bytes bn fmts qw qa ws (outs0, calls0) = (Some outs, calls) \<Longrightarrow>
     srcsetOf fm outs = srcsetOf fm outs0 @
       (if fm \<in> set fmts
        then map (\<lambda>w. bn @ ''-'' @ numToString w @ ''.'' @ fmtName fm @ '' '' @ numToString w @ ''w'') ws
        else [])"
proof (induction ws arbitrary: outs0 calls0)
  case Nil
  then show ?case by simp
next
  case (Cons w ws)
  from Cons.prems show ?case
    by (cases fm) (auto simp: pushOutput_def srcsetOf_def dest!: Cons.IH split: option.splits prod.splits if_splits)
qed

lemma encodeLoop_outputs:
  "encodeLoop sh bytes bn fmts qw qa ws (outs0, calls0) = (Some outs, calls) \<Longrightarrow>
     \<exists>new. outs = outs0 @ new
       \<and> map (\<lambda>out. (width out, fmt out)) new
           = List.product ws (filter (\<lambda>fm. fm \<in> set fmts) [Webp, Avif])
       \<and> (\<forall>out\<in>set new. name out = bn @ ''-'' @ numToString (width out) @ ''.'' @ fmtName (fmt out)
             \<and> toBuffer sh bytes (width out) (fmt out) (case fmt out of Webp \<Rightarrow> qw | Avif \<Rightarrow> qa)
                 = Some (buf out))
       \<and> calls = calls0 @ List.product ws (filter (\<lambda>fm. fm \<in> set fmts) [Webp, Avif])"
proof (induction ws arbitrary: outs0 calls0)
  case Nil
  then show ?case by simp
next
  case (Cons w ws)
  from Cons.prems show ?case
    by (auto simp: pushOutput_def dest!: Cons.IH split: option.splits prod.splits if_splits)
qed

lemma batchLoop_outputs:
  "fst (batchLoop sh ws fmts qw qa fs (allOutputs, allSnippets, calls)) =
     allOutputs @ concat (map (\<lambda>f. case fst (processImage sh ws fmts qw qa f) of
                                      Inl reason \<Rightarrow> [] | Inr (outs, doc) \<Rightarrow> outs) fs)"
  by (induction fs arbitrary: allOutputs allSnippets calls) (auto split: prod.splits sum.splits)

lemma batchLoop_snippets:
  "fst (snd (batchLoop sh ws fmts qw qa fs (allOutputs, allSnippets, calls))) =
     allSnippets @ concat (map (\<lambda>f. case fst (processImage sh ws fmts qw qa f) of
                                      Inl reason \<Rightarrow> [] | Inr (outs, doc) \<Rightarrow> [doc]) fs)"
  by (induction fs arbitrary: allOutputs allSnippets calls) (auto split: prod.splits sum.splits)

lemma batchLoop_calls:
  "snd (snd (batchLoop sh ws fmts qw qa fs (allOutputs, allSnippets, calls))) =
     calls @ concat (map (\<lambda>f. snd (processImage sh ws fmts qw qa f)) fs)"
  by (induction fs arbitrary: allOutputs allSnippets calls) (auto split: prod.splits sum.splits)

lemma format_mem: "fmts \<noteq> [] \<Longrightarrow> Webp \<in> set fmts \<or> Avif \<in> set fmts"
  by (cases fmts; cases "hd fmts") auto

lemma processImage_Inr_nonempty:
  assumes "fst (processImage sh ws fmts qw qa f) = Inr (outs, doc)" and "fmts \<noteq> []"
  shows "outs \<noteq> []"
proof -
  from assms(1) obtain origW calls where
    fw: "feasible ws origW \<noteq> []" and
    enc: "encodeLoop sh (buffer f) (baseNameBatch f) fmts qw qa (feasible ws origW) ([], []) = (Some outs, calls)"
    by (auto simp: processImage_def Let_def split: probe.splits option.splits if_splits prod.splits)
  from encodeLoop_outputs[OF enc] have
    "map (\<lambda>out. (width out, fmt out)) outs
       = List.product (feasible ws origW) (filter (\<lambda>fm. fm \<in> set fmts) [Webp, Avif])"
    by auto
  then have "length outs = length (feasible ws origW) * length (filter (\<lambda>fm. fm \<in> set fmts) [Webp, Avif])"
    by (metis length_map length_product)
  moreover have "filter (\<lambda>fm. fm \<in> set fmts) [Webp, Avif] \<noteq> []"
    using format_mem[OF assms(2)] by auto
  ultimately show ?thesis using fw by auto
qed

subsection \<open>The batch\<close>

lemma processImage_probe_fails:
  "metadata sh (buffer f) = MetadataError \<Longrightarrow>
     processImage sh ws fmts qw qa f = (Inl SkipMetadata, [])"
  by (simp add: processImage_def)

lemma processImage_no_width:
  "metadata sh (buffer f) = Metadata None \<or> metadata sh (buffer f) = Metadata (Some 0) \<Longrightarrow>
     processImage sh ws fmts qw qa f = (Inl SkipNoWidth, [])"
  by (auto simp: processImage_def)

lemma processImage_widths_exceed:
  assumes "metadata sh (buffer f) = Metadata (Some origW)" and "origW \<noteq> 0"
    and "\<forall>w\<in>set ws. origW < w"
  shows "processImage sh ws fmts qw qa f = (Inl (SkipAllWidthsExceed origW), [])"
proof -
  have "feasible ws origW = []"
    using assms(3) by (auto simp: feasible_def filter_empty_conv)
  with assms(1,2) show ?thesis
    by (simp add: processImage_def)
qed

lemma encodeLoop_fails:
  assumes "w \<in> set ws" and "fm \<in> set fmts"
    and "toBuffer sh bytes w fm (case fm of Webp \<Rightarrow> qw | Avif \<Rightarrow> qa) = None"
  shows "fst (encodeLoop sh bytes bn fmts qw qa ws st) = None"
  unfolding encodeLoop_None_iff using assms by (cases fm) auto

lemma processImage_codec_fails:
  assumes "metadata sh (buffer f) = Metadata (Some origW)" and "origW \<noteq> 0"
    and "w \<in> set (feasible ws origW)" and "fm \<in> set fmts"
    and "toBuffer sh (buffer f) w fm (case fm of Webp \<Rightarrow> qw | Avif \<Rightarrow> qa) = None"
  shows "fst (processImage sh ws fmts qw qa f) = Inl SkipProcessing"
proof -
  have "fst (encodeLoop sh (buffer f) (baseNameBatch f) fmts qw qa (feasible ws origW) ([], [])) = None"
    using assms(3-5) by (rule encodeLoop_fails)
  moreover have "feasible ws origW \<noteq> []"
    using assms(3) by auto
  ultimately show ?thesis
    using assms(1,2) by (auto simp: processImage_def Let_def split: prod.splits option.splits)
qed

lemma batchLoop_skip:
  assumes "fst (processImage sh ws fmts qw qa f) = Inl reason"
  shows "fst (batchLoop sh ws fmts qw qa (pre @ f # post) (allOutputs, allSnippets, calls))
           = fst (batchLoop sh ws fmts qw qa (pre @ post) (allOutputs, allSnippets, calls))
       \<and> fst (snd (batchLoop sh ws fmts qw qa (pre @ f # post) (allOutputs, allSnippets, calls)))
           = fst (snd (batchLoop sh ws fmts qw qa (pre @ post) (allOutputs, allSnippets, calls)))"
  using assms by (simp add: batchLoop_outputs batchLoop_snippets)

lemma batchLoop_keeps:
  assumes "g \<in> set files" and "fst (processImage sh ws fmts qw qa g) = Inr (outs, doc)"
  shows "set outs \<subseteq> set (fst (batchLoop sh ws fmts qw qa files ([], [], [])))
       \<and> doc \<in> set (fst (snd (batchLoop sh ws fmts qw qa files ([], [], []))))"
  using assms by (force simp: batchLoop_outputs batchLoop_snippets)

lemma processBatch_all_fail:
  assumes "files \<noteq> []" and "\<forall>g\<in>set files. isl (fst (processImage sh (resolveWidths (widths b))
             (resolveFormats (formats b)) (qWebp b) (qAvif b) g))"
  shows "fst (processBatch sh b files) = Inl NoImagesProcessable"
proof -
  let ?loop = "batchLoop sh (resolveWidths (widths b)) (resolveFormats (formats b)) (qWebp b) (qAvif b)
                 files ([], [], [])"
  have "fst ?loop = []"
    using assms(2) by (auto simp: batchLoop_outputs isl_def)
  then show ?thesis
    using assms(1) by (cases ?loop) (simp add: processBatch_def Let_def)
qed

lemma processBatch_some_succeeds:
  assumes "g \<in> set files"
    and "fst (processImage sh (resolveWidths (widths b)) (resolveFormats (formats b))
               (qWebp b) (qAvif b) g) = Inr (outs, doc)"
  shows "\<exists>a. fst (processBatch sh b files) = Inr a
             \<and> set (map (\<lambda>out. (name out, buf out)) outs) \<subseteq> set (entries a)"
proof -
  let ?loop = "batchLoop sh (resolveWidths (widths b)) (resolveFormats (formats b)) (qWebp b) (qAvif b)
                 files ([], [], [])"
  have sub: "set outs \<subseteq> set (fst ?loop)"
    using batchLoop_keeps[OF assms] by simp
  have "outs \<noteq> []"
    using processImage_Inr_nonempty[OF assms(2) resolveFormats_nonempty] .
  with sub have ne: "fst ?loop \<noteq> []" by auto
  have "files \<noteq> []" using assms(1) by auto
  with ne sub show ?thesis
    by (cases ?loop) (auto simp: processBatch_def Let_def)
qed

subsection \<open>Further facts about the handlers\<close>

lemma process_codec_fails:
  assumes "metadata sh (buffer f) = Metadata (Some origW)" and "origW \<noteq> 0"
    and "w \<in> set (feasible (resolveWidths (widths b)) origW)"
    and "fm \<in> set (resolveFormats (formats b))"
    and "toBuffer sh (buffer f) w fm (case fm of Webp \<Rightarrow> qWebp b | Avif \<Rightarrow> qAvif b) = None"
  shows "fst (process sh b (Some f)) = Inl EncodingFailure"
proof -
  have "fst (encodeLoop sh (buffer f) (baseNameSingle b f) (resolveFormats (formats b)) (qWebp b) (qAvif b)
               (feasible (resolveWidths (widths b)) origW) ([], [])) = None"
    using assms(3-5) by (rule encodeLoop_fails)
  moreover have "feasible (resolveWidths (widths b)) origW \<noteq> []"
    using assms(3) by auto
  ultimately show ?thesis
    using assms(1,2) by (auto simp: process_def Let_def split: prod.splits option.splits)
qed

lemma processBatch_entries:
  "fst (processBatch sh b files) = Inr a \<Longrightarrow>
     butlast (entries a) = map (\<lambda>out. (name out, buf out)) (fst (batchState sh b files))
     \<and> last (entries a) = (''snippets.html'',
          combinedSnippets (length files) (resolveWidths (widths b)) (resolveFormats (formats b))
            (fst (snd (batchState sh b files))))"
  by (cases "batchState sh b files")
     (auto simp: processBatch_def Let_def split: if_splits)

lemma count_list_filter:
  "count_list (filter P xs) x = (if P x then count_list xs x else 0)"
  by (induction xs) auto

lemma length_requested: "length (filter (\<lambda>fm. fm \<in> set fmts) [Webp, Avif]) = card (set fmts)"
proof -
  have univ: "set fmts \<subseteq> {Webp, Avif}"
  proof
    fix x assume "x \<in> set fmts"
    show "x \<in> {Webp, Avif}" by (cases x) simp_all
  qed
  consider "Webp \<in> set fmts" "Avif \<in> set fmts" | "Webp \<in> set fmts" "Avif \<notin> set fmts"
    | "Webp \<notin> set fmts" "Avif \<in> set fmts" | "Webp \<notin> set fmts" "Avif \<notin> set fmts"
    by blast
  then show ?thesis
  proof cases
    case 1
    with univ have "set fmts = {Webp, Avif}" by blast
    with 1 show ?thesis by simp
  next
    case 2
    with univ have "set fmts = {Webp}" by blast
    with 2 show ?thesis by simp
  next
    case 3
    with univ have "set fmts = {Avif}" by blast
    with 3 show ?thesis by simp
  next
    case 4
    have "fmts = []"
    proof (cases fmts)
      case Nil
      then show ?thesis .
    next
      case (Cons x xs)
      with 4 show ?thesis by (cases x) auto
    qed
    then show ?thesis by simp
  qed
qed

lemma sorted_hd_le: "sorted (ws :: int list) \<Longrightarrow> w \<in> set ws \<Longrightarrow> hd ws \<le> w"
  by (cases ws) auto

lemma picture_eq_img_iff:
  "pictureSnippet bn fmts ws sz outs = imgSnippet bn fmts ws sz outs \<longleftrightarrow> length fmts \<le> 1"
  by (simp add: pictureSnippet_def imgSnippet_def)

lemma batchLoop_snippets_count:
  "length (fst (snd (batchLoop sh ws fmts qw qa fs (allOutputs, allSnippets, calls))))
     = length allSnippets + length (filter (\<lambda>g. \<not> isl (fst (processImage sh ws fmts qw qa g))) fs)"
  by (induction fs arbitrary: allOutputs allSnippets calls) (auto split: prod.splits sum.splits)

lemma stripExt_trailing_dot: "stripExt (a @ ''.'') = a @ ''.''"
  by (induction a) auto

lemma encodeLoop_count:
  "encodeLoop sh bytes bn fmts qw qa ws (outs0, calls0) = (Some outs, calls) \<Longrightarrow>
     length (filter (\<lambda>out. width out = w \<and> fmt out = fm) outs)
       = length (filter (\<lambda>out. width out = w \<and> fmt out = fm) outs0)
         + (if fm \<in> set fmts then count_list ws w else 0)"
proof (induction ws arbitrary: outs0 calls0)
  case Nil
  then show ?case by simp
next
  case (Cons x ws)
  from Cons.prems show ?case
    by (cases fm) (auto simp: pushOutput_def dest!: Cons.IH split: option.splits prod.splits if_splits)
qed

lemma process_Inr:
  assumes "fst (process sh b (Some f)) = Inr ar"
  shows "\<exists>origW outs calls.
           metadata sh (buffer f) = Metadata (Some origW)
           \<and> encodeLoop sh (buffer f) (baseNameSingle b f) (resolveFormats (formats b)) (qWebp b) (qAvif b)
                (feasible (resolveWidths (widths b)) origW) ([], []) = (Some outs, calls)
           \<and> zipName ar = baseNameSingle b f @ ''-assets.zip''
           \<and> butlast (entries ar) = map (\<lambda>out. (name out, buf out)) outs"
  using assms
  by (auto simp: process_def Let_def split: probe.splits option.splits if_splits prod.splits)

lemma processImage_Inr:
  assumes "fst (processImage sh ws fmts qw qa g) = Inr (outs, doc)"
  shows "\<exists>origW calls.
           metadata sh (buffer g) = Metadata (Some origW)
           \<and> encodeLoop sh (buffer g) (baseNameBatch g) fmts qw qa (feasible ws origW) ([], [])
               = (Some outs, calls)"
  using assms
  by (auto simp: processImage_def Let_def split: probe.splits option.splits if_splits prod.splits)

section \<open>The claims\<close>

subsection \<open>Widths that cannot be parsed\<close>

text \<open>
  C1. The specification says that a \<^verbatim>\<open>widths\<close> field which leaves nothing after
  splitting, trimming, parsing and filtering resolves to the default breakpoints 480, 768,
  1200, and that malformed widths never make the request fail. The code takes the defaults
  only when the field is absent (\<^verbatim>\<open>body.widths ?? ...\<close>). For the field \<^verbatim>\<open>abc\<close> the
  resolved widths are empty, and \<^verbatim>\<open>/process\<close> answers with the error written for widths
  that exceed the original. The formats, resolved three lines below, do fall back when
  nothing is left (\<^verbatim>\<open>if (formats.length === 0) formats.push('webp')\<close>).
\<close>

theorem C1_unparsable_widths_stay_empty:
  "resolveWidths (Some ''abc'') = []
   \<and> process exampleSharp (noFields\<lparr>widths := Some ''abc''\<rparr>) (Some photo)
       = (Inl (AllWidthsExceedOriginal 1000), [])
   \<and> resolveWidths None = [480, 768, 1200]
   \<and> resolveFormats (Some ''png'') = [Webp]"
  by code_simp

text \<open>The same for every present field: when nothing passes the filter, the resolved
  widths are empty.\<close>

lemma resolveWidths_present_empty:
  "filter finitePositive (map (\<lambda>t. parseInt (trim t)) (splitComma s)) = [] \<Longrightarrow>
     resolveWidths (Some s) = []"
  by (simp add: resolveWidths_def orElse_def)

subsection \<open>Quality values\<close>

text \<open>
  C3. The specification says that an absent quality is 82 (webp) or 55 (avif), that a number
  outside 1 to 100 is clamped, and that a non-numeric value resolves to the default. In the
  code \<^verbatim>\<open>parseInt\<close> of a non-numeric string is NaN, and \<^verbatim>\<open>Math.max\<close> and
  \<^verbatim>\<open>Math.min\<close> pass NaN on: the resolved quality is NaN, which is neither the default
  nor a value between 1 and 100.
\<close>

theorem C3_non_numeric_quality_is_NaN:
  "qWebp (noFields\<lparr>quality_webp := Some ''abc''\<rparr>) = NaN
   \<and> qAvif (noFields\<lparr>quality_avif := Some ''abc''\<rparr>) = NaN"
  by code_simp

text \<open>The other parts of the sentence hold: the defaults for absent fields, and the
  clamping of every value that \<^verbatim>\<open>parseInt\<close> reads as a number.\<close>

lemma quality_absent: "qWebp (b\<lparr>quality_webp := None\<rparr>) = Num 82 \<and> qAvif (b\<lparr>quality_avif := None\<rparr>) = Num 55"
  by (simp add: qWebp_def qAvif_def resolveQuality_def orElse_def) code_simp

lemma quality_numeric:
  "parseInt s = Num i \<Longrightarrow> resolveQuality (Some s) dflt = Num (min 100 (max 1 i))"
  by (simp add: resolveQuality_def orElse_def)

lemma quality_examples:
  "resolveQuality (Some ''0'') ''82'' = Num 1 \<and> resolveQuality (Some ''500'') ''82'' = Num 100"
  by code_simp

subsection \<open>Repeated widths\<close>

text \<open>A width given twice is kept twice, and is encoded and archived twice under one
  name.\<close>

theorem C2_duplicate_widths_counterexample:
  "resolveWidths (Some ''480,480'') = [480, 480]
   \<and> fst (encodeLoop exampleSharp ''pixels'' ''photo'' [Webp] (Num 82) (Num 55)
          (feasible (resolveWidths (Some ''480,480'')) 1000) ([], []))
       = Some [\<lparr>name = ''photo-480.webp'', fmt = Webp, width = 480, buf = ''webp:480''\<rparr>,
               \<lparr>name = ''photo-480.webp'', fmt = Webp, width = 480, buf = ''webp:480''\<rparr>]
   \<and> map_sum id (map fst \<circ> entries)
         (fst (process exampleSharp (noFields\<lparr>widths := Some ''480,480''\<rparr>) (Some photo)))
       = Inr [''photo-480.webp'', ''photo-480.webp'', ''snippet.html'']"
  by code_simp

text \<open>
  C2, as amended. The resolved widths are in ascending order; the code does not remove
  repetitions. Whenever the resolved widths are pairwise distinct, no two outputs of one
  image have the same (width, format) pair, and no two have the same file name.
\<close>

theorem C2_distinct_widths_distinct_outputs:
  assumes dist: "distinct (resolveWidths field)"
    and enc: "encodeLoop sh bytes bn fmts qw qa (feasible (resolveWidths field) origW) ([], [])
                = (Some outs, calls)"
  shows "sorted (resolveWidths field)
       \<and> distinct (map (\<lambda>out. (width out, fmt out)) outs)
       \<and> distinct (map name outs)"
proof -
  let ?fw = "feasible (resolveWidths field) origW"
  let ?req = "filter (\<lambda>fm. fm \<in> set fmts) [Webp, Avif]"
  from encodeLoop_outputs[OF enc] have
    pairs: "map (\<lambda>out. (width out, fmt out)) outs = List.product ?fw ?req" and
    names: "\<forall>out\<in>set outs. name out = bn @ ''-'' @ numToString (width out) @ ''.'' @ fmtName (fmt out)"
    by auto
  have "distinct ?fw"
    using dist by (simp add: feasible_def)
  then have dp: "distinct (map (\<lambda>out. (width out, fmt out)) outs)"
    unfolding pairs by (intro distinct_product) simp_all
  have pos: "0 \<le> width out" if "out \<in> set outs" for out
  proof -
    from that have "(width out, fmt out) \<in> set (List.product ?fw ?req)"
      unfolding pairs[symmetric] by force
    then have "width out \<in> set (resolveWidths field)"
      by (auto simp: feasible_def)
    then show ?thesis
      using resolveWidths_pos by fastforce
  qed
  have dbl: "roundToDouble (width out) = Some (width out)" if "out \<in> set outs" for out
  proof -
    from that have "(width out, fmt out) \<in> set (List.product ?fw ?req)"
      unfolding pairs[symmetric] by force
    then have "width out \<in> set (resolveWidths field)"
      by (auto simp: feasible_def)
    then show ?thesis
      by (rule resolveWidths_double)
  qed
  have inj: "inj_on name (set outs)"
  proof (rule inj_onI)
    fix x y assume x: "x \<in> set outs" and y: "y \<in> set outs" and eq: "name x = name y"
    from names x y eq have
      "bn @ ''-'' @ numToString (width x) @ ''.'' @ fmtName (fmt x)
         = bn @ ''-'' @ numToString (width y) @ ''.'' @ fmtName (fmt y)"
      by simp
    from outputName_inj[OF pos[OF x] pos[OF y] dbl[OF x] dbl[OF y] this]
    have "(width x, fmt x) = (width y, fmt y)" by simp
    with dp x y show "x = y"
      by (meson distinct_map inj_onD)
  qed
  have "distinct outs"
    using dp by (simp add: distinct_map)
  with inj have "distinct (map name outs)"
    by (simp add: distinct_map)
  with dp show ?thesis
    by (simp add: sorted_resolveWidths)
qed

theorem C2_distinct_widths_distinct_outputs_witness:
  "distinct (resolveWidths (Some ''768,480''))
   \<and> encodeLoop exampleSharp ''pixels'' ''photo'' [Webp, Avif] (Num 82) (Num 55)
        (feasible (resolveWidths (Some ''768,480'')) 1000) ([], [])
      = (Some [\<lparr>name = ''photo-480.webp'', fmt = Webp, width = 480, buf = ''webp:480''\<rparr>,
               \<lparr>name = ''photo-480.avif'', fmt = Avif, width = 480, buf = ''avif:480''\<rparr>,
               \<lparr>name = ''photo-768.webp'', fmt = Webp, width = 768, buf = ''webp:768''\<rparr>,
               \<lparr>name = ''photo-768.avif'', fmt = Avif, width = 768, buf = ''avif:768''\<rparr>],
         [(480, Webp), (480, Avif), (768, Webp), (768, Avif)])
   \<and> distinct (map name
         [\<lparr>name = ''photo-480.webp'', fmt = Webp, width = 480, buf = ''webp:480''\<rparr>,
          \<lparr>name = ''photo-480.avif'', fmt = Avif, width = 480, buf = ''avif:480''\<rparr>,
          \<lparr>name = ''photo-768.webp'', fmt = Webp, width = 768, buf = ''webp:768''\<rparr>,
          \<lparr>name = ''photo-768.avif'', fmt = Avif, width = 768, buf = ''avif:768''\<rparr>])"
proof -
  have h1: "distinct (resolveWidths (Some ''768,480''))"
    by code_simp
  have h2: "encodeLoop exampleSharp ''pixels'' ''photo'' [Webp, Avif] (Num 82) (Num 55)
        (feasible (resolveWidths (Some ''768,480'')) 1000) ([], [])
      = (Some [\<lparr>name = ''photo-480.webp'', fmt = Webp, width = 480, buf = ''webp:480''\<rparr>,
               \<lparr>name = ''photo-480.avif'', fmt = Avif, width = 480, buf = ''avif:480''\<rparr>,
               \<lparr>name = ''photo-768.webp'', fmt = Webp, width = 768, buf = ''webp:768''\<rparr>,
               \<lparr>name = ''photo-768.avif'', fmt = Avif, width = 768, buf = ''avif:768''\<rparr>],
         [(480, Webp), (480, Avif), (768, Webp), (768, Avif)])"
    by code_simp
  from C2_distinct_widths_distinct_outputs[OF h1 h2] h1 h2 show ?thesis
    by blast
qed

subsection \<open>The base name\<close>

text \<open>A provided \<^verbatim>\<open>basename\<close> loses its trailing extension like a file name does, and
  the batch handler names the outputs after the uploaded file whatever the field says.\<close>

theorem C4_basename_counterexample:
  "baseNameSingle (noFields\<lparr>basename := Some ''hero.v2''\<rparr>) photo = ''hero''
   \<and> map_sum id (map fst \<circ> entries)
         (fst (processBatch exampleSharp (noFields\<lparr>basename := Some ''hero''\<rparr>) [photo]))
       = Inr [''photo-480.webp'', ''photo-768.webp'', ''snippets.html'']"
  by code_simp

text \<open>
  C4, as amended. On \<^verbatim>\<open>/process\<close> the base name is the \<^verbatim>\<open>basename\<close> field if present,
  else the original file name, else \<^verbatim>\<open>image\<close>, and from whichever was taken a trailing
  extension (a last dot followed by at least one character) is removed: a value without a
  dot, or whose last dot is its last character, is taken as it is. The zip and every output
  of \<^verbatim>\<open>/process\<close> are named with that base name. \<^verbatim>\<open>/process-batch\<close> does not read
  \<^verbatim>\<open>basename\<close> (nor \<^verbatim>\<open>sizes\<close>): each image is named after its original file name,
  stripped in the same way, or \<^verbatim>\<open>image\<close>. The widths, the formats and the two qualities
  of the request apply to every image of the batch alike: the outputs in the archive are,
  image after image, those of the feasible widths among the request's resolved widths in the
  request's formats, each encoded at the request's quality for its format.
\<close>

theorem C4_baseName_resolution:
  assumes "e \<noteq> []" and "CHR ''.'' \<notin> set e" and "CHR ''.'' \<notin> set s"
  shows "baseNameSingle (b\<lparr>basename := Some s\<rparr>) f = s
       \<and> baseNameSingle (b\<lparr>basename := Some (a @ ''.'')\<rparr>) f = a @ ''.''
       \<and> baseNameSingle (b\<lparr>basename := Some (a @ ''.'' @ e)\<rparr>) f = a
       \<and> baseNameSingle (b\<lparr>basename := None\<rparr>) (f\<lparr>originalname := Some s\<rparr>) = s
       \<and> baseNameSingle (b\<lparr>basename := None\<rparr>) (f\<lparr>originalname := Some (a @ ''.'')\<rparr>) = a @ ''.''
       \<and> baseNameSingle (b\<lparr>basename := None\<rparr>) (f\<lparr>originalname := Some (a @ ''.'' @ e)\<rparr>) = a
       \<and> baseNameSingle (b\<lparr>basename := None\<rparr>) (f\<lparr>originalname := None\<rparr>) = ''image''
       \<and> baseNameBatch (f\<lparr>originalname := Some s\<rparr>) = s
       \<and> baseNameBatch (f\<lparr>originalname := Some (a @ ''.'')\<rparr>) = a @ ''.''
       \<and> baseNameBatch (f\<lparr>originalname := Some (a @ ''.'' @ e)\<rparr>) = a
       \<and> baseNameBatch (f\<lparr>originalname := None\<rparr>) = ''image''
       \<and> (\<forall>ar. fst (process sh b (Some f)) = Inr ar \<longrightarrow>
             zipName ar = baseNameSingle b f @ ''-assets.zip''
             \<and> (\<forall>n\<in>set (map fst (butlast (entries ar))).
                   \<exists>w fm. n = baseNameSingle b f @ ''-'' @ numToString w @ ''.'' @ fmtName fm))
       \<and> processBatch sh (b\<lparr>basename := x, sizes := y\<rparr>) files = processBatch sh b files
       \<and> (\<forall>ar. fst (processBatch sh b files) = Inr ar \<longrightarrow>
             butlast (entries ar)
               = map (\<lambda>out. (name out, buf out))
                   (concat (map (\<lambda>g. case fst (imageResult sh b g) of
                                        Inl reason \<Rightarrow> [] | Inr (outs, doc) \<Rightarrow> outs) files)))
       \<and> (\<forall>g outs doc. fst (imageResult sh b g) = Inr (outs, doc) \<longrightarrow>
             (\<exists>origW. metadata sh (buffer g) = Metadata (Some origW)
                \<and> map (\<lambda>out. (width out, fmt out)) outs
                    = List.product (feasible (resolveWidths (widths b)) origW)
                        (filter (\<lambda>fm. fm \<in> set (resolveFormats (formats b))) [Webp, Avif])
                \<and> (\<forall>out\<in>set outs.
                      name out = baseNameBatch g @ ''-'' @ numToString (width out) @ ''.''
                                   @ fmtName (fmt out)
                      \<and> toBuffer sh (buffer g) (width out) (fmt out)
                          (case fmt out of Webp \<Rightarrow> qWebp b | Avif \<Rightarrow> qAvif b) = Some (buf out))))"
proof -
  have ext: "stripExt (a @ ''.'' @ e) = a"
    using assms(1,2) by (rule stripExt_ext)
  have plain: "stripExt s = s"
    using assms(3) by (rule stripExt_no_dot)
  have dot: "stripExt (a @ ''.'') = a @ ''.''"
    by (rule stripExt_trailing_dot)
  have image: "stripExt ''image'' = ''image''"
    by simp
  have names: "baseNameSingle (b\<lparr>basename := Some s\<rparr>) f = s
       \<and> baseNameSingle (b\<lparr>basename := Some (a @ ''.'')\<rparr>) f = a @ ''.''
       \<and> baseNameSingle (b\<lparr>basename := Some (a @ ''.'' @ e)\<rparr>) f = a
       \<and> baseNameSingle (b\<lparr>basename := None\<rparr>) (f\<lparr>originalname := Some s\<rparr>) = s
       \<and> baseNameSingle (b\<lparr>basename := None\<rparr>) (f\<lparr>originalname := Some (a @ ''.'')\<rparr>) = a @ ''.''
       \<and> baseNameSingle (b\<lparr>basename := None\<rparr>) (f\<lparr>originalname := Some (a @ ''.'' @ e)\<rparr>) = a
       \<and> baseNameSingle (b\<lparr>basename := None\<rparr>) (f\<lparr>originalname := None\<rparr>) = ''image''
       \<and> baseNameBatch (f\<lparr>originalname := Some s\<rparr>) = s
       \<and> baseNameBatch (f\<lparr>originalname := Some (a @ ''.'')\<rparr>) = a @ ''.''
       \<and> baseNameBatch (f\<lparr>originalname := Some (a @ ''.'' @ e)\<rparr>) = a
       \<and> baseNameBatch (f\<lparr>originalname := None\<rparr>) = ''image''"
    using ext plain dot image
    by (simp add: baseNameSingle_def baseNameBatch_def orElse_def)
  have single: "zipName ar = baseNameSingle b f @ ''-assets.zip''
             \<and> (\<forall>n\<in>set (map fst (butlast (entries ar))).
                   \<exists>w fm. n = baseNameSingle b f @ ''-'' @ numToString w @ ''.'' @ fmtName fm)"
    if "fst (process sh b (Some f)) = Inr ar" for ar
  proof -
    from process_Inr[OF that] obtain origW outs calls where
      enc: "encodeLoop sh (buffer f) (baseNameSingle b f) (resolveFormats (formats b)) (qWebp b) (qAvif b)
              (feasible (resolveWidths (widths b)) origW) ([], []) = (Some outs, calls)"
      and z: "zipName ar = baseNameSingle b f @ ''-assets.zip''"
      and en: "butlast (entries ar) = map (\<lambda>out. (name out, buf out)) outs"
      by blast
    from encodeLoop_outputs[OF enc] have
      "\<forall>out\<in>set outs. name out = baseNameSingle b f @ ''-'' @ numToString (width out) @ ''.''
                                   @ fmtName (fmt out)"
      by auto
    then have "\<forall>n\<in>set (map fst (butlast (entries ar))).
                   \<exists>w fm. n = baseNameSingle b f @ ''-'' @ numToString w @ ''.'' @ fmtName fm"
      unfolding en by auto
    with z show ?thesis by (rule conjI)
  qed
  have ignore: "processBatch sh (b\<lparr>basename := x, sizes := y\<rparr>) files = processBatch sh b files"
    by (simp add: processBatch_def qWebp_def qAvif_def)
  have batch: "butlast (entries ar)
               = map (\<lambda>out. (name out, buf out))
                   (concat (map (\<lambda>g. case fst (imageResult sh b g) of
                                        Inl reason \<Rightarrow> [] | Inr (outs, doc) \<Rightarrow> outs) files))"
    if "fst (processBatch sh b files) = Inr ar" for ar
    using processBatch_entries[OF that] by (simp add: batchLoop_outputs)
  have image_cfg: "\<exists>origW. metadata sh (buffer g) = Metadata (Some origW)
                \<and> map (\<lambda>out. (width out, fmt out)) outs
                    = List.product (feasible (resolveWidths (widths b)) origW)
                        (filter (\<lambda>fm. fm \<in> set (resolveFormats (formats b))) [Webp, Avif])
                \<and> (\<forall>out\<in>set outs.
                      name out = baseNameBatch g @ ''-'' @ numToString (width out) @ ''.''
                                   @ fmtName (fmt out)
                      \<and> toBuffer sh (buffer g) (width out) (fmt out)
                          (case fmt out of Webp \<Rightarrow> qWebp b | Avif \<Rightarrow> qAvif b) = Some (buf out))"
    if "fst (imageResult sh b g) = Inr (outs, doc)" for g outs doc
  proof -
    from processImage_Inr[OF that] obtain origW calls where
      md: "metadata sh (buffer g) = Metadata (Some origW)" and
      enc: "encodeLoop sh (buffer g) (baseNameBatch g) (resolveFormats (formats b)) (qWebp b) (qAvif b)
              (feasible (resolveWidths (widths b)) origW) ([], []) = (Some outs, calls)"
      by blast
    from encodeLoop_outputs[OF enc] md show ?thesis
      by auto
  qed
  from names single ignore batch image_cfg show ?thesis
    by blast
qed

theorem C4_baseName_resolution_witness:
  "''jpg'' \<noteq> [] \<and> CHR ''.'' \<notin> set ''jpg'' \<and> CHR ''.'' \<notin> set ''hero''
   \<and> baseNameSingle (noFields\<lparr>widths := Some ''300'', formats := Some ''avif'', basename := Some ''hero''\<rparr>) photo
       = ''hero''
   \<and> baseNameSingle (noFields\<lparr>widths := Some ''300'', formats := Some ''avif'',
                                basename := Some (''my.photo'' @ ''.'')\<rparr>) photo
       = ''my.photo'' @ ''.''
   \<and> baseNameSingle (noFields\<lparr>widths := Some ''300'', formats := Some ''avif'',
                                basename := Some (''my.photo'' @ ''.'' @ ''jpg'')\<rparr>) photo
       = ''my.photo''
   \<and> baseNameSingle (noFields\<lparr>widths := Some ''300'', formats := Some ''avif'', basename := None\<rparr>)
        (photo\<lparr>originalname := Some ''hero''\<rparr>) = ''hero''
   \<and> baseNameSingle (noFields\<lparr>widths := Some ''300'', formats := Some ''avif'', basename := None\<rparr>)
        (photo\<lparr>originalname := Some (''my.photo'' @ ''.'')\<rparr>) = ''my.photo'' @ ''.''
   \<and> baseNameSingle (noFields\<lparr>widths := Some ''300'', formats := Some ''avif'', basename := None\<rparr>)
        (photo\<lparr>originalname := Some (''my.photo'' @ ''.'' @ ''jpg'')\<rparr>) = ''my.photo''
   \<and> baseNameSingle (noFields\<lparr>widths := Some ''300'', formats := Some ''avif'', basename := None\<rparr>)
        (photo\<lparr>originalname := None\<rparr>) = ''image''
   \<and> baseNameBatch (photo\<lparr>originalname := Some ''hero''\<rparr>) = ''hero''
   \<and> baseNameBatch (photo\<lparr>originalname := Some (''my.photo'' @ ''.'')\<rparr>) = ''my.photo'' @ ''.''
   \<and> baseNameBatch (photo\<lparr>originalname := Some (''my.photo'' @ ''.'' @ ''jpg'')\<rparr>) = ''my.photo''
   \<and> baseNameBatch (photo\<lparr>originalname := None\<rparr>) = ''image''
   \<and> fst (process exampleSharp (noFields\<lparr>widths := Some ''300'', formats := Some ''avif''\<rparr>) (Some photo))
       = Inr (projr (fst (process exampleSharp
                            (noFields\<lparr>widths := Some ''300'', formats := Some ''avif''\<rparr>) (Some photo))))
   \<and> zipName (projr (fst (process exampleSharp
                             (noFields\<lparr>widths := Some ''300'', formats := Some ''avif''\<rparr>) (Some photo))))
       = baseNameSingle (noFields\<lparr>widths := Some ''300'', formats := Some ''avif''\<rparr>) photo @ ''-assets.zip''
   \<and> processBatch exampleSharp
        (noFields\<lparr>widths := Some ''300'', formats := Some ''avif'',
                   basename := Some ''hero'', sizes := Some ''100vw''\<rparr>) [photo, unencodable]
       = processBatch exampleSharp (noFields\<lparr>widths := Some ''300'', formats := Some ''avif''\<rparr>)
           [photo, unencodable]
   \<and> fst (processBatch exampleSharp (noFields\<lparr>widths := Some ''300'', formats := Some ''avif''\<rparr>)
            [photo, unencodable])
       = Inr (projr (fst (processBatch exampleSharp
                            (noFields\<lparr>widths := Some ''300'', formats := Some ''avif''\<rparr>)
                            [photo, unencodable])))
   \<and> butlast (entries (projr (fst (processBatch exampleSharp
                                      (noFields\<lparr>widths := Some ''300'', formats := Some ''avif''\<rparr>)
                                      [photo, unencodable]))))
       = map (\<lambda>out. (name out, buf out))
           (concat (map (\<lambda>g. case fst (imageResult exampleSharp
                                           (noFields\<lparr>widths := Some ''300'', formats := Some ''avif''\<rparr>) g) of
                                Inl reason \<Rightarrow> [] | Inr (outs, doc) \<Rightarrow> outs) [photo, unencodable]))
   \<and> butlast (entries (projr (fst (processBatch exampleSharp
                                      (noFields\<lparr>widths := Some ''300'', formats := Some ''avif''\<rparr>)
                                      [photo, unencodable]))))
       = [(''photo-300.avif'', ''avif:300''), (''odd-300.avif'', ''avif:300'')]"
proof -
  let ?b = "noFields\<lparr>widths := Some ''300'', formats := Some ''avif''\<rparr>"
  have h1: "''jpg'' \<noteq> []" by simp
  have h2: "CHR ''.'' \<notin> set ''jpg''" by simp
  have h3: "CHR ''.'' \<notin> set ''hero''" by simp
  have "\<not> isl (fst (process exampleSharp ?b (Some photo)))"
    by code_simp
  then have p: "fst (process exampleSharp ?b (Some photo))
                  = Inr (projr (fst (process exampleSharp ?b (Some photo))))"
    by (cases "fst (process exampleSharp ?b (Some photo))") simp_all
  have "\<not> isl (fst (processBatch exampleSharp ?b [photo, unencodable]))"
    by code_simp
  then have q: "fst (processBatch exampleSharp ?b [photo, unencodable])
                  = Inr (projr (fst (processBatch exampleSharp ?b [photo, unencodable])))"
    by (cases "fst (processBatch exampleSharp ?b [photo, unencodable])") simp_all
  have v: "butlast (entries (projr (fst (processBatch exampleSharp ?b [photo, unencodable]))))
       = [(''photo-300.avif'', ''avif:300''), (''odd-300.avif'', ''avif:300'')]"
    by code_simp
  note t = C4_baseName_resolution[where b = ?b and f = photo and a = "''my.photo''"
      and sh = exampleSharp and x = "Some ''hero''" and y = "Some ''100vw''"
      and files = "[photo, unencodable]", OF h1 h2 h3]
  from t p have z: "zipName (projr (fst (process exampleSharp ?b (Some photo))))
       = baseNameSingle ?b photo @ ''-assets.zip''"
    by blast
  from t q have u: "butlast (entries (projr (fst (processBatch exampleSharp ?b [photo, unencodable]))))
       = map (\<lambda>out. (name out, buf out))
           (concat (map (\<lambda>g. case fst (imageResult exampleSharp ?b g) of
                                Inl reason \<Rightarrow> [] | Inr (outs, doc) \<Rightarrow> outs) [photo, unencodable]))"
    by blast
  from t h1 h2 h3 p q z u v show ?thesis
    by simp
qed

subsection \<open>All widths above the original\<close>

text \<open>
  C5. On \<^verbatim>\<open>/process\<close>, when the image has been probed and every resolved width is
  larger than its intrinsic width, the response is the error
  \<open>AllWidthsExceedOriginal\<close> with the intrinsic width, and the encoder has not been
  invoked (the list of invocations is empty); an error response carries no archive.
\<close>

theorem C5_all_widths_exceed_original:
  assumes "metadata sh (buffer f) = Metadata (Some origW)" and "origW \<noteq> 0"
    and "\<forall>w\<in>set (resolveWidths (widths b)). origW < w"
  shows "process sh b (Some f) = (Inl (AllWidthsExceedOriginal origW), [])"
proof -
  have "feasible (resolveWidths (widths b)) origW = []"
    using assms(3) by (auto simp: feasible_def filter_empty_conv)
  with assms(1,2) show ?thesis
    by (simp add: process_def Let_def)
qed

theorem C5_all_widths_exceed_original_witness:
  "metadata \<lparr>metadata = (\<lambda>bytes. Metadata (Some 1200)), toBuffer = (\<lambda>bytes w fm q. Some bytes)\<rparr>
       (buffer photo) = Metadata (Some 1200)
   \<and> (1200::int) \<noteq> 0
   \<and> resolveWidths (widths (noFields\<lparr>widths := Some ''2000''\<rparr>)) = [2000]
   \<and> (1200::int) < 2000
   \<and> process \<lparr>metadata = (\<lambda>bytes. Metadata (Some 1200)), toBuffer = (\<lambda>bytes w fm q. Some bytes)\<rparr>
        (noFields\<lparr>widths := Some ''2000''\<rparr>) (Some photo)
       = (Inl (AllWidthsExceedOriginal 1200), [])"
proof -
  let ?sh = "\<lparr>metadata = (\<lambda>bytes. Metadata (Some 1200)), toBuffer = (\<lambda>bytes w fm q. Some bytes)\<rparr>"
  have h1: "metadata ?sh (buffer photo) = Metadata (Some 1200)" by simp
  have h2: "(1200::int) \<noteq> 0" by simp
  have ws: "resolveWidths (widths (noFields\<lparr>widths := Some ''2000''\<rparr>)) = [2000]" by code_simp
  have h3: "\<forall>w\<in>set (resolveWidths (widths (noFields\<lparr>widths := Some ''2000''\<rparr>))). (1200::int) < w"
    unfolding ws by simp
  from C5_all_widths_exceed_original[OF h1 h2 h3] h1 h2 ws
  show ?thesis by simp
qed

subsection \<open>Failures in a batch\<close>

text \<open>
  C6. In a batch, an image that fails at the metadata probe (the probe rejects, or reports
  no width), or whose resolved widths all
  exceed its width, or for which the encoder fails at some feasible width and requested
  format, is skipped: the outputs and the snippet documents collected by the loop are those
  of the batch without it. Every other image that can be processed has its outputs in the
  archive. If no other image can be processed either, the response is the error
  \<open>NoImagesProcessable\<close>, which carries no archive.
\<close>

theorem C6_batch_skips_failed_images:
  assumes fail:
    "metadata sh (buffer f) = MetadataError
     \<or> metadata sh (buffer f) = Metadata None
     \<or> metadata sh (buffer f) = Metadata (Some 0)
     \<or> (\<exists>origW. metadata sh (buffer f) = Metadata (Some origW) \<and> origW \<noteq> 0
            \<and> (\<forall>w\<in>set (resolveWidths (widths b)). origW < w))
     \<or> (\<exists>origW w fm. metadata sh (buffer f) = Metadata (Some origW) \<and> origW \<noteq> 0
            \<and> w \<in> set (feasible (resolveWidths (widths b)) origW)
            \<and> fm \<in> set (resolveFormats (formats b))
            \<and> toBuffer sh (buffer f) w fm (case fm of Webp \<Rightarrow> qWebp b | Avif \<Rightarrow> qAvif b) = None)"
  shows "fst (batchState sh b (pre @ f # post)) = fst (batchState sh b (pre @ post))
       \<and> fst (snd (batchState sh b (pre @ f # post))) = fst (snd (batchState sh b (pre @ post)))
       \<and> (\<forall>g\<in>set pre \<union> set post. \<forall>outs doc. fst (imageResult sh b g) = Inr (outs, doc) \<longrightarrow>
             (\<exists>a. fst (processBatch sh b (pre @ f # post)) = Inr a
                  \<and> set (map (\<lambda>out. (name out, buf out)) outs) \<subseteq> set (entries a)))
       \<and> ((\<forall>g\<in>set pre \<union> set post. isl (fst (imageResult sh b g))) \<longrightarrow>
             fst (processBatch sh b (pre @ f # post)) = Inl NoImagesProcessable)"
proof -
  from fail have skipped: "isl (fst (imageResult sh b f))"
  proof (elim disjE exE conjE)
    assume "metadata sh (buffer f) = MetadataError"
    then show ?thesis by (simp add: processImage_probe_fails)
  next
    assume "metadata sh (buffer f) = Metadata None"
    then show ?thesis by (simp add: processImage_no_width)
  next
    assume "metadata sh (buffer f) = Metadata (Some 0)"
    then show ?thesis by (simp add: processImage_no_width)
  next
    fix origW
    assume "metadata sh (buffer f) = Metadata (Some origW)" "origW \<noteq> 0"
      "\<forall>w\<in>set (resolveWidths (widths b)). origW < w"
    then show ?thesis by (simp add: processImage_widths_exceed)
  next
    fix origW w fm
    assume "metadata sh (buffer f) = Metadata (Some origW)" "origW \<noteq> 0"
      "w \<in> set (feasible (resolveWidths (widths b)) origW)"
      "fm \<in> set (resolveFormats (formats b))"
      "toBuffer sh (buffer f) w fm (case fm of Webp \<Rightarrow> qWebp b | Avif \<Rightarrow> qAvif b) = None"
    then show ?thesis by (simp add: processImage_codec_fails)
  qed
  then obtain reason where r: "fst (imageResult sh b f) = Inl reason"
    by (auto simp: isl_def)
  note skip = batchLoop_skip[OF r, of pre post "[]" "[]" "[]"]
  have keep: "\<exists>a. fst (processBatch sh b (pre @ f # post)) = Inr a
                  \<and> set (map (\<lambda>out. (name out, buf out)) outs) \<subseteq> set (entries a)"
    if "g \<in> set pre \<union> set post" "fst (imageResult sh b g) = Inr (outs, doc)" for g outs doc
  proof -
    from that(1) have "g \<in> set (pre @ f # post)" by auto
    then show ?thesis using that(2) by (rule processBatch_some_succeeds)
  qed
  have none: "fst (processBatch sh b (pre @ f # post)) = Inl NoImagesProcessable"
    if "\<forall>g\<in>set pre \<union> set post. isl (fst (imageResult sh b g))"
  proof (rule processBatch_all_fail)
    show "pre @ f # post \<noteq> []" by simp
    show "\<forall>g\<in>set (pre @ f # post). isl (fst (imageResult sh b g))"
      using that skipped by auto
  qed
  from skip keep none show ?thesis by blast
qed

theorem C6_batch_skips_failed_images_witness:
  "metadata exampleSharp (buffer corrupt) = MetadataError
   \<and> metadata exampleSharp (buffer tiny) = Metadata (Some 100) \<and> (100::int) \<noteq> 0
   \<and> resolveWidths (widths noFields) = [480, 768, 1200] \<and> (100::int) < 480
   \<and> metadata exampleSharp (buffer unencodable) = Metadata (Some 1000) \<and> (1000::int) \<noteq> 0
   \<and> 768 \<in> set (feasible (resolveWidths (widths noFields)) 1000)
   \<and> Webp \<in> set (resolveFormats (formats noFields))
   \<and> toBuffer exampleSharp (buffer unencodable) 768 Webp
        (case Webp of Webp \<Rightarrow> qWebp noFields | Avif \<Rightarrow> qAvif noFields) = None
   \<and> fst (batchState exampleSharp noFields ([photo] @ corrupt # [photo]))
       = fst (batchState exampleSharp noFields ([photo] @ [photo]))
   \<and> fst (batchState exampleSharp noFields ([photo] @ tiny # [photo]))
       = fst (batchState exampleSharp noFields ([photo] @ [photo]))
   \<and> fst (batchState exampleSharp noFields ([photo] @ unencodable # [photo]))
       = fst (batchState exampleSharp noFields ([photo] @ [photo]))
   \<and> fst (snd (batchState exampleSharp noFields ([photo] @ corrupt # [photo])))
       = fst (snd (batchState exampleSharp noFields ([photo] @ [photo])))
   \<and> map_sum id (map fst \<circ> entries)
        (fst (processBatch exampleSharp noFields ([photo] @ corrupt # [photo])))
       = Inr [''photo-480.webp'', ''photo-768.webp'', ''photo-480.webp'', ''photo-768.webp'',
              ''snippets.html'']
   \<and> fst (processBatch exampleSharp noFields ([tiny] @ corrupt # [unencodable])) = Inl NoImagesProcessable"
proof -
  have c: "metadata exampleSharp (buffer corrupt) = MetadataError"
    by code_simp
  have t1: "metadata exampleSharp (buffer tiny) = Metadata (Some 100)"
    by code_simp
  have t2: "(100::int) \<noteq> 0" "(100::int) < 480"
    by simp_all
  have ws: "resolveWidths (widths noFields) = [480, 768, 1200]"
    by code_simp
  have t3: "\<forall>w\<in>set (resolveWidths (widths noFields)). (100::int) < w"
    unfolding ws by simp
  have u1: "metadata exampleSharp (buffer unencodable) = Metadata (Some 1000)"
    by code_simp
  have u2: "(1000::int) \<noteq> 0"
    by simp
  have u3: "768 \<in> set (feasible (resolveWidths (widths noFields)) 1000)"
    by code_simp
  have u4: "Webp \<in> set (resolveFormats (formats noFields))"
    by code_simp
  have u5: "toBuffer exampleSharp (buffer unencodable) 768 Webp
        (case Webp of Webp \<Rightarrow> qWebp noFields | Avif \<Rightarrow> qAvif noFields) = None"
    by code_simp
  have a: "map_sum id (map fst \<circ> entries)
        (fst (processBatch exampleSharp noFields ([photo] @ corrupt # [photo])))
       = Inr [''photo-480.webp'', ''photo-768.webp'', ''photo-480.webp'', ''photo-768.webp'',
              ''snippets.html'']"
    by code_simp
  have ft: "metadata exampleSharp (buffer tiny) = MetadataError
     \<or> metadata exampleSharp (buffer tiny) = Metadata None
     \<or> metadata exampleSharp (buffer tiny) = Metadata (Some 0)
     \<or> (\<exists>origW. metadata exampleSharp (buffer tiny) = Metadata (Some origW) \<and> origW \<noteq> 0
            \<and> (\<forall>w\<in>set (resolveWidths (widths noFields)). origW < w))
     \<or> (\<exists>origW w fm. metadata exampleSharp (buffer tiny) = Metadata (Some origW) \<and> origW \<noteq> 0
            \<and> w \<in> set (feasible (resolveWidths (widths noFields)) origW)
            \<and> fm \<in> set (resolveFormats (formats noFields))
            \<and> toBuffer exampleSharp (buffer tiny) w fm
                 (case fm of Webp \<Rightarrow> qWebp noFields | Avif \<Rightarrow> qAvif noFields) = None)"
    using t1 t2(1) t3 by blast
  have fu: "metadata exampleSharp (buffer unencodable) = MetadataError
     \<or> metadata exampleSharp (buffer unencodable) = Metadata None
     \<or> metadata exampleSharp (buffer unencodable) = Metadata (Some 0)
     \<or> (\<exists>origW. metadata exampleSharp (buffer unencodable) = Metadata (Some origW) \<and> origW \<noteq> 0
            \<and> (\<forall>w\<in>set (resolveWidths (widths noFields)). origW < w))
     \<or> (\<exists>origW w fm. metadata exampleSharp (buffer unencodable) = Metadata (Some origW) \<and> origW \<noteq> 0
            \<and> w \<in> set (feasible (resolveWidths (widths noFields)) origW)
            \<and> fm \<in> set (resolveFormats (formats noFields))
            \<and> toBuffer exampleSharp (buffer unencodable) w fm
                 (case fm of Webp \<Rightarrow> qWebp noFields | Avif \<Rightarrow> qAvif noFields) = None)"
    using u1 u2 u3 u4 u5 by blast
  note kc = C6_batch_skips_failed_images[where pre = "[photo]" and post = "[photo]", OF disjI1, OF c]
  note kt = C6_batch_skips_failed_images[where pre = "[photo]" and post = "[photo]", OF ft]
  note ku = C6_batch_skips_failed_images[where pre = "[photo]" and post = "[photo]", OF fu]
  have st: "isl (fst (imageResult exampleSharp noFields tiny))"
    by code_simp
  have su: "isl (fst (imageResult exampleSharp noFields unencodable))"
    by code_simp
  from C6_batch_skips_failed_images[where pre = "[tiny]" and post = "[unencodable]", OF disjI1, OF c]
    st su
  have none: "fst (processBatch exampleSharp noFields ([tiny] @ corrupt # [unencodable]))
      = Inl NoImagesProcessable"
    by simp
  from kc kt ku have eqs:
    "fst (batchState exampleSharp noFields ([photo] @ corrupt # [photo]))
       = fst (batchState exampleSharp noFields ([photo] @ [photo]))"
    "fst (batchState exampleSharp noFields ([photo] @ tiny # [photo]))
       = fst (batchState exampleSharp noFields ([photo] @ [photo]))"
    "fst (batchState exampleSharp noFields ([photo] @ unencodable # [photo]))
       = fst (batchState exampleSharp noFields ([photo] @ [photo]))"
    "fst (snd (batchState exampleSharp noFields ([photo] @ corrupt # [photo])))
       = fst (snd (batchState exampleSharp noFields ([photo] @ [photo])))"
    by blast+
  show ?thesis
    by (intro conjI c t1 t2 ws u1 u2 u3 u4 u5 eqs a none)
qed

subsection \<open>All or nothing per image\<close>

text \<open>
  C7. If the encoder fails for one feasible width and requested format of an image, then
  \<^verbatim>\<open>/process\<close> answers with the error \<open>EncodingFailure\<close> and no archive, and
  \<^verbatim>\<open>/process-batch\<close> skips the image: the outputs in the archive of the batch are exactly
  those of the batch without that image, so that nothing encoded for it before the failure
  is kept.
\<close>

theorem C7_codec_failure_all_or_nothing:
  assumes "metadata sh (buffer f) = Metadata (Some origW)" and "origW \<noteq> 0"
    and "w \<in> set (feasible (resolveWidths (widths b)) origW)"
    and "fm \<in> set (resolveFormats (formats b))"
    and "toBuffer sh (buffer f) w fm (case fm of Webp \<Rightarrow> qWebp b | Avif \<Rightarrow> qAvif b) = None"
  shows "fst (process sh b (Some f)) = Inl EncodingFailure
       \<and> fst (imageResult sh b f) = Inl SkipProcessing
       \<and> fst (batchState sh b (pre @ f # post)) = fst (batchState sh b (pre @ post))
       \<and> (\<forall>a. fst (processBatch sh b (pre @ f # post)) = Inr a \<longrightarrow>
             butlast (entries a)
               = map (\<lambda>out. (name out, buf out)) (fst (batchState sh b (pre @ post))))"
proof -
  have single: "fst (process sh b (Some f)) = Inl EncodingFailure"
    using assms by (rule process_codec_fails)
  have skipped: "fst (imageResult sh b f) = Inl SkipProcessing"
    using assms by (rule processImage_codec_fails)
  have same: "fst (batchState sh b (pre @ f # post)) = fst (batchState sh b (pre @ post))"
    using batchLoop_skip[OF skipped] by simp
  have "butlast (entries a) = map (\<lambda>out. (name out, buf out)) (fst (batchState sh b (pre @ post)))"
    if "fst (processBatch sh b (pre @ f # post)) = Inr a" for a
    using processBatch_entries[OF that] same by simp
  with single skipped same show ?thesis by blast
qed

theorem C7_codec_failure_all_or_nothing_witness:
  "metadata exampleSharp (buffer unencodable) = Metadata (Some 1000)
   \<and> (1000::int) \<noteq> 0
   \<and> 768 \<in> set (feasible (resolveWidths (widths noFields)) 1000)
   \<and> Webp \<in> set (resolveFormats (formats noFields))
   \<and> toBuffer exampleSharp (buffer unencodable) 768 Webp
        (case Webp of Webp \<Rightarrow> qWebp noFields | Avif \<Rightarrow> qAvif noFields) = None
   \<and> toBuffer exampleSharp (buffer unencodable) 480 Webp (qWebp noFields) = Some ''webp:480''
   \<and> fst (process exampleSharp noFields (Some unencodable)) = Inl EncodingFailure
   \<and> fst (imageResult exampleSharp noFields unencodable) = Inl SkipProcessing
   \<and> fst (batchState exampleSharp noFields ([photo] @ unencodable # []))
       = fst (batchState exampleSharp noFields ([photo] @ []))
   \<and> map_sum id (map fst \<circ> entries)
         (fst (processBatch exampleSharp noFields ([photo] @ unencodable # [])))
       = Inr [''photo-480.webp'', ''photo-768.webp'', ''snippets.html'']"
proof -
  have h1: "metadata exampleSharp (buffer unencodable) = Metadata (Some 1000)" by code_simp
  have h2: "(1000::int) \<noteq> 0" by simp
  have h3: "768 \<in> set (feasible (resolveWidths (widths noFields)) 1000)" by code_simp
  have h4: "Webp \<in> set (resolveFormats (formats noFields))" by code_simp
  have h5: "toBuffer exampleSharp (buffer unencodable) 768 Webp
        (case Webp of Webp \<Rightarrow> qWebp noFields | Avif \<Rightarrow> qAvif noFields) = None" by code_simp
  have e1: "toBuffer exampleSharp (buffer unencodable) 480 Webp (qWebp noFields) = Some ''webp:480''"
    by code_simp
  have e2: "map_sum id (map fst \<circ> entries)
         (fst (processBatch exampleSharp noFields ([photo] @ unencodable # [])))
       = Inr [''photo-480.webp'', ''photo-768.webp'', ''snippets.html'']"
    by code_simp
  from C7_codec_failure_all_or_nothing[OF h1 h2 h3 h4 h5, where pre = "[photo]" and post = "[]"]
    h1 h2 h3 h4 h5 e1 e2
  show ?thesis by blast
qed

subsection \<open>Feasible widths and outputs\<close>

text \<open>A width resolved twice is feasible twice, and there are two outputs for it in each
  requested format.\<close>

theorem C8_repeated_width_counterexample:
  "feasible (resolveWidths (Some ''480,480'')) 1000 = [480, 480]
   \<and> map_option (map width)
        (fst (encodeLoop exampleSharp ''pixels'' ''photo'' [Webp] (Num 82) (Num 55)
               (feasible (resolveWidths (Some ''480,480'')) 1000) ([], [])))
       = Some [480, 480]
   \<and> map_option (map fmt)
        (fst (encodeLoop exampleSharp ''pixels'' ''photo'' [Webp] (Num 82) (Num 55)
               (feasible (resolveWidths (Some ''480,480'')) 1000) ([], [])))
       = Some [Webp, Webp]
   \<and> map_sum id (length \<circ> butlast \<circ> entries)
        (fst (process exampleSharp (noFields\<lparr>widths := Some ''480,480''\<rparr>) (Some photo)))
       = Inr 2"
  by code_simp

text \<open>
  C8, as amended. The feasible widths are the resolved widths that do not exceed the
  intrinsic width, each as often as it is resolved, in ascending order. When the encoder
  succeeds, every output has a feasible width and a requested format, there are as many
  outputs as there are feasible widths times requested formats, and for each feasible width
  and requested format the number of outputs is the number of times the width occurs among
  the resolved widths: exactly one where the width occurs once.
\<close>

theorem C8_outputs_match_feasible_widths:
  assumes enc: "encodeLoop sh bytes bn fmts qw qa (feasible (resolveWidths field) origW) ([], [])
                  = (Some outs, calls)"
  shows "sorted (feasible (resolveWidths field) origW)
       \<and> set (feasible (resolveWidths field) origW) = {w \<in> set (resolveWidths field). w \<le> origW}
       \<and> (\<forall>w. count_list (feasible (resolveWidths field) origW) w
                = (if w \<le> origW then count_list (resolveWidths field) w else 0))
       \<and> (\<forall>out\<in>set outs. width out \<in> set (feasible (resolveWidths field) origW) \<and> fmt out \<in> set fmts)
       \<and> length outs = length (feasible (resolveWidths field) origW) * card (set fmts)
       \<and> (\<forall>w fm. length (filter (\<lambda>out. width out = w \<and> fmt out = fm) outs)
                   = (if fm \<in> set fmts \<and> w \<le> origW then count_list (resolveWidths field) w else 0))
       \<and> (\<forall>w\<in>set (feasible (resolveWidths field) origW). \<forall>fm\<in>set fmts.
             count_list (resolveWidths field) w = 1 \<longrightarrow>
               length (filter (\<lambda>out. width out = w \<and> fmt out = fm) outs) = 1)"
proof -
  let ?fw = "feasible (resolveWidths field) origW"
  let ?req = "filter (\<lambda>fm. fm \<in> set fmts) [Webp, Avif]"
  let ?key = "\<lambda>out. (width out, fmt out)"
  from encodeLoop_outputs[OF enc] have pairs: "map ?key outs = List.product ?fw ?req"
    by auto
  have s: "sorted ?fw"
    unfolding feasible_def using sorted_resolveWidths by (rule sorted_wrt_filter)
  have m: "set ?fw = {w \<in> set (resolveWidths field). w \<le> origW}"
    by (auto simp: feasible_def)
  have c: "\<forall>w. count_list ?fw w = (if w \<le> origW then count_list (resolveWidths field) w else 0)"
    by (simp add: feasible_def count_list_filter)
  have mem: "\<forall>out\<in>set outs. width out \<in> set ?fw \<and> fmt out \<in> set fmts"
  proof
    fix out assume "out \<in> set outs"
    then have "?key out \<in> set (map ?key outs)" by simp
    then have "width out \<in> set ?fw \<and> fmt out \<in> set ?req"
      unfolding pairs by simp
    moreover have "set ?req \<subseteq> set fmts"
      by (rule subsetI) (simp only: set_filter mem_Collect_eq)
    ultimately show "width out \<in> set ?fw \<and> fmt out \<in> set fmts"
      by blast
  qed
  have "length (map ?key outs) = length ?fw * length ?req"
    unfolding pairs by (rule length_product)
  then have len: "length outs = length ?fw * card (set fmts)"
    by (simp only: length_map length_requested)
  have cnt: "length (filter (\<lambda>out. width out = w \<and> fmt out = fm) outs)
               = (if fm \<in> set fmts \<and> w \<le> origW then count_list (resolveWidths field) w else 0)"
    for w fm
    using encodeLoop_count[OF enc, of w fm] c by simp
  have one: "\<forall>w\<in>set ?fw. \<forall>fm\<in>set fmts.
               count_list (resolveWidths field) w = 1 \<longrightarrow>
                 length (filter (\<lambda>out. width out = w \<and> fmt out = fm) outs) = 1"
    using cnt by (auto simp: feasible_def)
  from s m c mem len cnt one show ?thesis by blast
qed

theorem C8_outputs_match_feasible_widths_witness:
  "encodeLoop exampleSharp ''pixels'' ''photo'' [Webp, Avif] (Num 82) (Num 55)
        (feasible (resolveWidths (Some ''480,768,480,2000'')) 1000) ([], [])
      = (Some [\<lparr>name = ''photo-480.webp'', fmt = Webp, width = 480, buf = ''webp:480''\<rparr>,
               \<lparr>name = ''photo-480.avif'', fmt = Avif, width = 480, buf = ''avif:480''\<rparr>,
               \<lparr>name = ''photo-480.webp'', fmt = Webp, width = 480, buf = ''webp:480''\<rparr>,
               \<lparr>name = ''photo-480.avif'', fmt = Avif, width = 480, buf = ''avif:480''\<rparr>,
               \<lparr>name = ''photo-768.webp'', fmt = Webp, width = 768, buf = ''webp:768''\<rparr>,
               \<lparr>name = ''photo-768.avif'', fmt = Avif, width = 768, buf = ''avif:768''\<rparr>],
         [(480, Webp), (480, Avif), (480, Webp), (480, Avif), (768, Webp), (768, Avif)])
   \<and> resolveWidths (Some ''480,768,480,2000'') = [480, 480, 768, 2000]
   \<and> feasible (resolveWidths (Some ''480,768,480,2000'')) 1000 = [480, 480, 768]
   \<and> sorted (feasible (resolveWidths (Some ''480,768,480,2000'')) 1000)
   \<and> set (feasible (resolveWidths (Some ''480,768,480,2000'')) 1000)
       = {w \<in> set (resolveWidths (Some ''480,768,480,2000'')). w \<le> 1000}
   \<and> length [\<lparr>name = ''photo-480.webp'', fmt = Webp, width = 480, buf = ''webp:480''\<rparr>,
               \<lparr>name = ''photo-480.avif'', fmt = Avif, width = 480, buf = ''avif:480''\<rparr>,
               \<lparr>name = ''photo-480.webp'', fmt = Webp, width = 480, buf = ''webp:480''\<rparr>,
               \<lparr>name = ''photo-480.avif'', fmt = Avif, width = 480, buf = ''avif:480''\<rparr>,
               \<lparr>name = ''photo-768.webp'', fmt = Webp, width = 768, buf = ''webp:768''\<rparr>,
               \<lparr>name = ''photo-768.avif'', fmt = Avif, width = 768, buf = ''avif:768''\<rparr>]
       = length (feasible (resolveWidths (Some ''480,768,480,2000'')) 1000) * card (set [Webp, Avif])
   \<and> length (filter (\<lambda>out. width out = 480 \<and> fmt out = Avif)
              [\<lparr>name = ''photo-480.webp'', fmt = Webp, width = 480, buf = ''webp:480''\<rparr>,
               \<lparr>name = ''photo-480.avif'', fmt = Avif, width = 480, buf = ''avif:480''\<rparr>,
               \<lparr>name = ''photo-480.webp'', fmt = Webp, width = 480, buf = ''webp:480''\<rparr>,
               \<lparr>name = ''photo-480.avif'', fmt = Avif, width = 480, buf = ''avif:480''\<rparr>,
               \<lparr>name = ''photo-768.webp'', fmt = Webp, width = 768, buf = ''webp:768''\<rparr>,
               \<lparr>name = ''photo-768.avif'', fmt = Avif, width = 768, buf = ''avif:768''\<rparr>]) = 2
   \<and> length (filter (\<lambda>out. width out = 768 \<and> fmt out = Webp)
              [\<lparr>name = ''photo-480.webp'', fmt = Webp, width = 480, buf = ''webp:480''\<rparr>,
               \<lparr>name = ''photo-480.avif'', fmt = Avif, width = 480, buf = ''avif:480''\<rparr>,
               \<lparr>name = ''photo-480.webp'', fmt = Webp, width = 480, buf = ''webp:480''\<rparr>,
               \<lparr>name = ''photo-480.avif'', fmt = Avif, width = 480, buf = ''avif:480''\<rparr>,
               \<lparr>name = ''photo-768.webp'', fmt = Webp, width = 768, buf = ''webp:768''\<rparr>,
               \<lparr>name = ''photo-768.avif'', fmt = Avif, width = 768, buf = ''avif:768''\<rparr>]) = 1"
proof -
  let ?outs = "[\<lparr>name = ''photo-480.webp'', fmt = Webp, width = 480, buf = ''webp:480''\<rparr>,
               \<lparr>name = ''photo-480.avif'', fmt = Avif, width = 480, buf = ''avif:480''\<rparr>,
               \<lparr>name = ''photo-480.webp'', fmt = Webp, width = 480, buf = ''webp:480''\<rparr>,
               \<lparr>name = ''photo-480.avif'', fmt = Avif, width = 480, buf = ''avif:480''\<rparr>,
               \<lparr>name = ''photo-768.webp'', fmt = Webp, width = 768, buf = ''webp:768''\<rparr>,
               \<lparr>name = ''photo-768.avif'', fmt = Avif, width = 768, buf = ''avif:768''\<rparr>]"
  have h: "encodeLoop exampleSharp ''pixels'' ''photo'' [Webp, Avif] (Num 82) (Num 55)
        (feasible (resolveWidths (Some ''480,768,480,2000'')) 1000) ([], [])
      = (Some ?outs, [(480, Webp), (480, Avif), (480, Webp), (480, Avif), (768, Webp), (768, Avif)])"
    by code_simp
  have rw: "resolveWidths (Some ''480,768,480,2000'') = [480, 480, 768, 2000]"
    by code_simp
  have fw: "feasible (resolveWidths (Some ''480,768,480,2000'')) 1000 = [480, 480, 768]"
    by code_simp
  note t = C8_outputs_match_feasible_widths[OF h]
  from t have s: "sorted (feasible (resolveWidths (Some ''480,768,480,2000'')) 1000)"
    and m: "set (feasible (resolveWidths (Some ''480,768,480,2000'')) 1000)
       = {w \<in> set (resolveWidths (Some ''480,768,480,2000'')). w \<le> 1000}"
    and l: "length ?outs
       = length (feasible (resolveWidths (Some ''480,768,480,2000'')) 1000) * card (set [Webp, Avif])"
    and c: "\<And>w fm. length (filter (\<lambda>out. width out = w \<and> fmt out = fm) ?outs)
                   = (if fm \<in> set [Webp, Avif] \<and> w \<le> 1000
                      then count_list (resolveWidths (Some ''480,768,480,2000'')) w else 0)"
    by blast+
  have c2: "length (filter (\<lambda>out. width out = 480 \<and> fmt out = Avif) ?outs) = 2"
    unfolding c rw by simp
  have c1: "length (filter (\<lambda>out. width out = 768 \<and> fmt out = Webp) ?outs) = 1"
    unfolding c rw by simp
  show ?thesis
    by (intro conjI h rw fw s m l c2 c1)
qed

subsection \<open>The picture tag\<close>

text \<open>The format named twice: the formats list has two entries, and the picture tag is a
  container, with an empty line where the avif source would be, not the img tag.\<close>

theorem C9_picture_counterexample:
  \<open>resolveFormats (Some ''webp,webp'') = [Webp, Webp]
   \<and> map_sum id (snd \<circ> last \<circ> entries)
        (fst (process exampleSharp
               (noFields\<lparr>widths := Some ''480'', formats := Some ''webp,webp'', sizes := Some ''100vw''\<rparr>)
               (Some photo)))
      = Inr (snippetDoc ''photo'' [Webp, Webp] [480] ''100vw''
               [\<lparr>name = ''photo-480.webp'', fmt = Webp, width = 480, buf = ''webp:480''\<rparr>])
   \<and> pictureSnippet ''photo'' [Webp, Webp] [480] ''100vw''
        [\<lparr>name = ''photo-480.webp'', fmt = Webp, width = 480, buf = ''webp:480''\<rparr>]
      = ''<picture>\<newline>  \<newline>  <source type="image/webp" srcset="photo-480.webp 480w" sizes="100vw">\<newline>  <img src="photo-480.webp" alt="" loading="lazy" decoding="async">\<newline></picture>''
   \<and> imgSnippet ''photo'' [Webp, Webp] [480] ''100vw''
        [\<lparr>name = ''photo-480.webp'', fmt = Webp, width = 480, buf = ''webp:480''\<rparr>]
      = ''<img\<newline>  src="photo-480.webp"\<newline>  srcset="photo-480.webp 480w"\<newline>  sizes="100vw"\<newline>  alt=""\<newline>  loading="lazy"\<newline>  decoding="async"\<newline>/>''
   \<and> pictureSnippet ''photo'' [Webp, Webp] [480] ''100vw''
        [\<lparr>name = ''photo-480.webp'', fmt = Webp, width = 480, buf = ''webp:480''\<rparr>]
      \<noteq> imgSnippet ''photo'' [Webp, Webp] [480] ''100vw''
        [\<lparr>name = ''photo-480.webp'', fmt = Webp, width = 480, buf = ''webp:480''\<rparr>]\<close>
  by code_simp

text \<open>
  C9, as amended. The picture tag equals the img tag exactly when the resolved formats list
  has one entry (a format named twice counts twice). When both webp and avif are requested
  and the encoder succeeds on the n feasible widths, the picture tag is a container with
  the avif source before the webp source, each listing one srcset entry per feasible width
  in ascending order of width, followed by a fallback img whose src is the webp output at
  the smallest feasible width.
\<close>

theorem C9_picture_tag:
  assumes enc: "encodeLoop sh bytes bn fmts qw qa ws ([], []) = (Some outs, calls)"
    and ws: "ws = feasible (resolveWidths field) origW"
    and ne: "ws \<noteq> []"
  shows \<open>(pictureSnippet bn fmts ws sz outs = imgSnippet bn fmts ws sz outs \<longleftrightarrow> length fmts \<le> 1)
       \<and> (Webp \<in> set fmts \<and> Avif \<in> set fmts \<longrightarrow>
            pictureSnippet bn fmts ws sz outs
              = ''<picture>\<newline>  ''
                @ sourceTag Avif (map (\<lambda>w. bn @ ''-'' @ numToString w @ ''.avif '' @ numToString w @ ''w'') ws) sz
                @ ''\<newline>  ''
                @ sourceTag Webp (map (\<lambda>w. bn @ ''-'' @ numToString w @ ''.webp '' @ numToString w @ ''w'') ws) sz
                @ ''\<newline>  <img src="'' @ bn @ ''-'' @ numToString (hd ws)
                @ ''.webp" alt="" loading="lazy" decoding="async">\<newline></picture>''
            \<and> sorted ws \<and> (\<forall>w\<in>set ws. hd ws \<le> w)
            \<and> (\<exists>out\<in>set outs. fmt out = Webp \<and> width out = hd ws
                   \<and> name out = bn @ ''-'' @ numToString (hd ws) @ ''.webp''))\<close>
proof -
  have sorted: "sorted ws"
    unfolding ws feasible_def using sorted_resolveWidths by (rule sorted_wrt_filter)
  have iff: "pictureSnippet bn fmts ws sz outs = imgSnippet bn fmts ws sz outs \<longleftrightarrow> length fmts \<le> 1"
    by (rule picture_eq_img_iff)
  have both: \<open>pictureSnippet bn fmts ws sz outs
              = ''<picture>\<newline>  ''
                @ sourceTag Avif (map (\<lambda>w. bn @ ''-'' @ numToString w @ ''.avif '' @ numToString w @ ''w'') ws) sz
                @ ''\<newline>  ''
                @ sourceTag Webp (map (\<lambda>w. bn @ ''-'' @ numToString w @ ''.webp '' @ numToString w @ ''w'') ws) sz
                @ ''\<newline>  <img src="'' @ bn @ ''-'' @ numToString (hd ws)
                @ ''.webp" alt="" loading="lazy" decoding="async">\<newline></picture>''
            \<and> sorted ws \<and> (\<forall>w\<in>set ws. hd ws \<le> w)
            \<and> (\<exists>out\<in>set outs. fmt out = Webp \<and> width out = hd ws
                   \<and> name out = bn @ ''-'' @ numToString (hd ws) @ ''.webp'')\<close>
    if wa: "Webp \<in> set fmts \<and> Avif \<in> set fmts"
  proof -
    from wa have w: "Webp \<in> set fmts" and a: "Avif \<in> set fmts" by simp_all
    have len: "1 < length fmts"
    proof (cases fmts)
      case Nil
      with w show ?thesis by simp
    next
      case (Cons x xs)
      with w a show ?thesis by (cases xs; cases x) auto
    qed
    have sw: "srcsetOf Webp outs = map (\<lambda>w. bn @ ''-'' @ numToString w @ ''.webp '' @ numToString w @ ''w'') ws"
      using encodeLoop_srcsetOf[OF enc, of Webp] w by (simp add: srcsetOf_def)
    have sa: "srcsetOf Avif outs = map (\<lambda>w. bn @ ''-'' @ numToString w @ ''.avif '' @ numToString w @ ''w'') ws"
      using encodeLoop_srcsetOf[OF enc, of Avif] a by (simp add: srcsetOf_def)
    have pic: \<open>pictureSnippet bn fmts ws sz outs
              = ''<picture>\<newline>  ''
                @ sourceTag Avif (map (\<lambda>w. bn @ ''-'' @ numToString w @ ''.avif '' @ numToString w @ ''w'') ws) sz
                @ ''\<newline>  ''
                @ sourceTag Webp (map (\<lambda>w. bn @ ''-'' @ numToString w @ ''.webp '' @ numToString w @ ''w'') ws) sz
                @ ''\<newline>  <img src="'' @ bn @ ''-'' @ numToString (hd ws)
                @ ''.webp" alt="" loading="lazy" decoding="async">\<newline></picture>''\<close>
      using len ne w unfolding pictureSnippet_def sw sa
      by (simp add: baseSrc_def elemStr_def hd_conv_nth)
    have small: "\<forall>w\<in>set ws. hd ws \<le> w"
      using sorted by (auto intro: sorted_hd_le)
    from encodeLoop_outputs[OF enc] have
      pairs: "map (\<lambda>out. (width out, fmt out)) outs
                = List.product ws (filter (\<lambda>fm. fm \<in> set fmts) [Webp, Avif])" and
      names: "\<forall>out\<in>set outs. name out = bn @ ''-'' @ numToString (width out) @ ''.'' @ fmtName (fmt out)"
      by auto
    have "(hd ws, Webp) \<in> set (List.product ws (filter (\<lambda>fm. fm \<in> set fmts) [Webp, Avif]))"
      using ne w by simp
    then have "(hd ws, Webp) \<in> set (map (\<lambda>out. (width out, fmt out)) outs)"
      unfolding pairs .
    then obtain out where "out \<in> set outs" "width out = hd ws" "fmt out = Webp"
      by auto
    with names have first: "\<exists>out\<in>set outs. fmt out = Webp \<and> width out = hd ws
                   \<and> name out = bn @ ''-'' @ numToString (hd ws) @ ''.webp''"
      by force
    show ?thesis
      by (intro conjI pic sorted small first)
  qed
  show ?thesis
    by (rule conjI[OF iff impI[OF both]])
qed

theorem C9_picture_tag_witness:
  \<open>encodeLoop \<lparr>metadata = (\<lambda>bytes. Metadata (Some 1600)), toBuffer = (\<lambda>bytes w fm q. Some bytes)\<rparr>
      ''pixels'' ''photo'' [Webp, Avif] (Num 82) (Num 55) [480, 768, 1200] ([], [])
    = (Some [\<lparr>name = ''photo-480.webp'', fmt = Webp, width = 480, buf = ''pixels''\<rparr>,
             \<lparr>name = ''photo-480.avif'', fmt = Avif, width = 480, buf = ''pixels''\<rparr>,
             \<lparr>name = ''photo-768.webp'', fmt = Webp, width = 768, buf = ''pixels''\<rparr>,
             \<lparr>name = ''photo-768.avif'', fmt = Avif, width = 768, buf = ''pixels''\<rparr>,
             \<lparr>name = ''photo-1200.webp'', fmt = Webp, width = 1200, buf = ''pixels''\<rparr>,
             \<lparr>name = ''photo-1200.avif'', fmt = Avif, width = 1200, buf = ''pixels''\<rparr>],
       [(480, Webp), (480, Avif), (768, Webp), (768, Avif), (1200, Webp), (1200, Avif)])
   \<and> [480, 768, 1200] = feasible (resolveWidths None) 1600
   \<and> [480, 768, 1200] \<noteq> ([] :: int list)
   \<and> Webp \<in> set [Webp, Avif] \<and> Avif \<in> set [Webp, Avif]
   \<and> pictureSnippet ''photo'' [Webp, Avif] [480, 768, 1200] ''100vw''
        [\<lparr>name = ''photo-480.webp'', fmt = Webp, width = 480, buf = ''pixels''\<rparr>,
         \<lparr>name = ''photo-480.avif'', fmt = Avif, width = 480, buf = ''pixels''\<rparr>,
         \<lparr>name = ''photo-768.webp'', fmt = Webp, width = 768, buf = ''pixels''\<rparr>,
         \<lparr>name = ''photo-768.avif'', fmt = Avif, width = 768, buf = ''pixels''\<rparr>,
         \<lparr>name = ''photo-1200.webp'', fmt = Webp, width = 1200, buf = ''pixels''\<rparr>,
         \<lparr>name = ''photo-1200.avif'', fmt = Avif, width = 1200, buf = ''pixels''\<rparr>]
      = ''<picture>\<newline>  <source type="image/avif" srcset="photo-480.avif 480w, photo-768.avif 768w, photo-1200.avif 1200w" sizes="100vw">\<newline>  <source type="image/webp" srcset="photo-480.webp 480w, photo-768.webp 768w, photo-1200.webp 1200w" sizes="100vw">\<newline>  <img src="photo-480.webp" alt="" loading="lazy" decoding="async">\<newline></picture>''\<close>
proof -
  let ?sh = "\<lparr>metadata = (\<lambda>bytes. Metadata (Some 1600)), toBuffer = (\<lambda>bytes w fm q. Some bytes)\<rparr>"
  let ?outs = "[\<lparr>name = ''photo-480.webp'', fmt = Webp, width = 480, buf = ''pixels''\<rparr>,
         \<lparr>name = ''photo-480.avif'', fmt = Avif, width = 480, buf = ''pixels''\<rparr>,
         \<lparr>name = ''photo-768.webp'', fmt = Webp, width = 768, buf = ''pixels''\<rparr>,
         \<lparr>name = ''photo-768.avif'', fmt = Avif, width = 768, buf = ''pixels''\<rparr>,
         \<lparr>name = ''photo-1200.webp'', fmt = Webp, width = 1200, buf = ''pixels''\<rparr>,
         \<lparr>name = ''photo-1200.avif'', fmt = Avif, width = 1200, buf = ''pixels''\<rparr>]"
  have h1: "encodeLoop ?sh ''pixels'' ''photo'' [Webp, Avif] (Num 82) (Num 55) [480, 768, 1200] ([], [])
    = (Some ?outs, [(480, Webp), (480, Avif), (768, Webp), (768, Avif), (1200, Webp), (1200, Avif)])"
    by code_simp
  have h2: "[480, 768, 1200] = feasible (resolveWidths None) 1600"
    by code_simp
  have h3: "[480, 768, 1200] \<noteq> ([] :: int list)"
    by simp
  have m: "Webp \<in> set [Webp, Avif] \<and> Avif \<in> set [Webp, Avif]"
    by simp
  have e: \<open>''<picture>\<newline>  ''
            @ sourceTag Avif (map (\<lambda>w. ''photo'' @ ''-'' @ numToString w @ ''.avif '' @ numToString w @ ''w'')
                               [480, 768, 1200]) ''100vw''
            @ ''\<newline>  ''
            @ sourceTag Webp (map (\<lambda>w. ''photo'' @ ''-'' @ numToString w @ ''.webp '' @ numToString w @ ''w'')
                               [480, 768, 1200]) ''100vw''
            @ ''\<newline>  <img src="'' @ ''photo'' @ ''-'' @ numToString (hd [480, 768, 1200])
            @ ''.webp" alt="" loading="lazy" decoding="async">\<newline></picture>''
       = ''<picture>\<newline>  <source type="image/avif" srcset="photo-480.avif 480w, photo-768.avif 768w, photo-1200.avif 1200w" sizes="100vw">\<newline>  <source type="image/webp" srcset="photo-480.webp 480w, photo-768.webp 768w, photo-1200.webp 1200w" sizes="100vw">\<newline>  <img src="photo-480.webp" alt="" loading="lazy" decoding="async">\<newline></picture>''\<close>
    by code_simp
  from C9_picture_tag[OF h1 h2 h3, of "''100vw''"] m
  have p: "pictureSnippet ''photo'' [Webp, Avif] [480, 768, 1200] ''100vw'' ?outs
      = ''<picture>\<newline>  ''
            @ sourceTag Avif (map (\<lambda>w. ''photo'' @ ''-'' @ numToString w @ ''.avif '' @ numToString w @ ''w'')
                               [480, 768, 1200]) ''100vw''
            @ ''\<newline>  ''
            @ sourceTag Webp (map (\<lambda>w. ''photo'' @ ''-'' @ numToString w @ ''.webp '' @ numToString w @ ''w'')
                               [480, 768, 1200]) ''100vw''
            @ ''\<newline>  <img src=\"'' @ ''photo'' @ ''-'' @ numToString (hd [480, 768, 1200])
            @ ''.webp\" alt=\"\" loading=\"lazy\" decoding=\"async\">\<newline></picture>''"
    by blast
  from p e have "pictureSnippet ''photo'' [Webp, Avif] [480, 768, 1200] ''100vw'' ?outs
       = ''<picture>\<newline>  <source type=\"image/avif\" srcset=\"photo-480.avif 480w, photo-768.avif 768w, photo-1200.avif 1200w\" sizes=\"100vw\">\<newline>  <source type=\"image/webp\" srcset=\"photo-480.webp 480w, photo-768.webp 768w, photo-1200.webp 1200w\" sizes=\"100vw\">\<newline>  <img src=\"photo-480.webp\" alt=\"\" loading=\"lazy\" decoding=\"async\">\<newline></picture>''"
    by (rule trans)
  with h1 h2 h3 m show ?thesis
    by blast
qed

subsection \<open>The count in the batch header\<close>

text \<open>
  C10. The combined snippets document is the last entry of the batch archive, named
  \<^verbatim>\<open>snippets.html\<close>, and the count in its header is the number of uploaded files,
  \<^verbatim>\<open>files.length\<close>; the number of images processed, which is the number of snippet
  documents joined below the header, is the number of files that were not skipped.
\<close>

theorem C10_header_counts_uploaded_files:
  assumes "fst (processBatch sh b files) = Inr a"
  shows "last (entries a)
           = (''snippets.html'',
              ''<!-- WebReady Batch Output -->\<newline><!-- '' @ numToString (int (length files))
              @ '' images processed -->\<newline>''
              @ widthsFormatsLine (resolveWidths (widths b)) (resolveFormats (formats b))
              @ ''\<newline>\<newline>''
              @ joinWith ''\<newline>---\<newline>\<newline>'' (fst (snd (batchState sh b files))) @ ''\<newline>'')
       \<and> length (fst (snd (batchState sh b files)))
           = length (filter (\<lambda>g. \<not> isl (fst (imageResult sh b g))) files)"
  using processBatch_entries[OF assms]
  by (simp add: combinedSnippets_def batchLoop_snippets_count)

theorem C10_header_counts_uploaded_files_witness:
  "\<not> isl (fst (processBatch exampleSharp noFields [photo, corrupt, tiny]))
   \<and> fst (last (entries (projr (fst (processBatch exampleSharp noFields [photo, corrupt, tiny])))))
       = ''snippets.html''
   \<and> take 59 (snd (last (entries (projr (fst (processBatch exampleSharp noFields [photo, corrupt, tiny]))))))
       = ''<!-- WebReady Batch Output -->\<newline><!-- 3 images processed -->\<newline>''
   \<and> length (fst (snd (batchState exampleSharp noFields [photo, corrupt, tiny]))) = 1"
proof -
  let ?r = "fst (processBatch exampleSharp noFields [photo, corrupt, tiny])"
  have ok: "\<not> isl ?r"
    by code_simp
  then have h: "?r = Inr (projr ?r)"
    by (cases ?r) simp_all
  have n: "numToString (int (length [photo, corrupt, tiny])) = ''3''"
    by code_simp
  have k: "length (filter (\<lambda>g. \<not> isl (fst (imageResult exampleSharp noFields g))) [photo, corrupt, tiny]) = 1"
    by code_simp
  from C10_header_counts_uploaded_files[OF h] n k ok show ?thesis
    by simp
qed

end
